theory Spec2Isabelle
  imports Main "HOL-Library.Word"
begin

section \<open>Descriptors, errors and the collaborators of copy.go\<close>

text \<open>
  \<open>ocispec.Descriptor\<close>: the fields the copy engine reads. A digest is a string.
\<close>

type_synonym digest = string

record descriptor =
  MediaType :: string
  Digest :: digest
  Size :: "64 word"

text \<open>
  Go errors as values. \<open>ErrAlreadyExists\<close> and \<open>ErrNotFound\<close> are the sentinels of
  package \<open>errdef\<close>, \<open>ErrSkipDesc\<close> the one of package \<open>graph\<close>; \<open>ErrorString\<close> is
  what \<open>errors.New\<close> and \<open>fmt.Errorf\<close> (without \<open>%w\<close>) build; \<open>Wrap\<close> is an error
  with an \<open>Unwrap\<close> method; \<open>Canceled\<close> and \<open>DeadlineExceeded\<close> are the values of
  \<open>ctx.Err()\<close>.
\<close>

datatype error =
    ErrAlreadyExists
  | ErrNotFound
  | ErrSkipDesc
  | ErrorString string
  | Wrap string error
  | Canceled
  | DeadlineExceeded

definition errors_New :: "string \<Rightarrow> error" where
  "errors_New s = ErrorString s"

text \<open>\<open>errors.Is\<close>: the error or one of the errors it wraps is the target.\<close>

fun errors_Is :: "error \<Rightarrow> error \<Rightarrow> bool" where
  "errors_Is (Wrap s e) target = (Wrap s e = target \<or> errors_Is e target)"
| "errors_Is e target = (e = target)"

text \<open>
  The storages, the hooks, the context and the down-edge discovery are interfaces whose
  implementations live outside copy.go. Each call is a function of a state \<open>'x\<close> of the
  outside world which returns its result and the new state; nothing is assumed about
  what it returns. An \<open>io.ReadCloser\<close> is known by its \<open>Close\<close> method, the only one
  copy.go calls.
\<close>

record 'x readCloser =
  Close :: "'x \<Rightarrow> error option \<times> 'x"

record 'x storage =
  Fetch :: "descriptor \<Rightarrow> 'x \<Rightarrow> (error + 'x readCloser) \<times> 'x"
  Push :: "descriptor \<Rightarrow> 'x readCloser \<Rightarrow> 'x \<Rightarrow> error option \<times> 'x"
  Exists :: "descriptor \<Rightarrow> 'x \<Rightarrow> (error + bool) \<times> 'x"

type_synonym 'x hook = "descriptor \<Rightarrow> 'x \<Rightarrow> error option \<times> 'x"

record 'x CopyGraphOptions =
  Concurrency :: "64 word"
  Cache :: "'x storage option"
  PreCopyHandler :: "'x hook option"
  PostCopyHandler :: "'x hook option"
  SkippedCopyHandler :: "'x hook option"

subsection \<open>The observable trace\<close>

text \<open>
  Every call that leaves copy.go is recorded, with what it returned, in a trace. A storage
  is named by the role it plays in \<open>CopyGraph\<close>: the source, the destination or the
  cache behind the proxy.
\<close>

datatype role = Source | Destination | CacheStore

datatype hook_kind = PreCopy | PostCopy | SkippedCopy

text \<open>
  What the \<open>select\<close> of the post-handler does: it receives from the completion
  signal, or it receives from \<open>ctx.Done()\<close> and reads \<open>ctx.Err()\<close>, or neither case
  ever becomes ready and the goroutine stays blocked.
\<close>

datatype select_result = DoneReceived | CtxDone error | NeverReady

datatype event =
    TryCommitEv descriptor bool
  | CloseEv digest
  | ExistsEv role descriptor "error + bool"
  | FetchEv role descriptor "error option"
  | PushEv role descriptor "error option"
  | CloseReaderEv role descriptor
  | DownEdgesEv descriptor "error + descriptor list"
  | SelectEv digest select_result
  | HookEv hook_kind descriptor "error option"
  | ResolveEv role string "error + descriptor"
  | RootFilterEv descriptor "error + descriptor \<times> bool"
  | TagEv role descriptor string "error option"

text \<open>
  A tracker entry is pending from the commit until its completion signal is closed. The
  world of a run: the tracker's map from digests to entries, the state of the outside
  world, and the trace so far.
\<close>

datatype entry = Pending | Done

record 'x world =
  tracker :: "digest \<rightharpoonup> entry"
  ext :: 'x
  trace :: "event list"

definition result_err :: "error + 'a \<Rightarrow> error option" where
  "result_err r = (case r of Inl e \<Rightarrow> Some e | Inr v \<Rightarrow> None)"

definition storage_Fetch ::
  "role \<times> 'x storage \<Rightarrow> descriptor \<Rightarrow> 'x world \<Rightarrow> (error + 'x readCloser) \<times> 'x world" where
  "storage_Fetch s desc w =
     (case Fetch (snd s) desc (ext w) of
        (r, x) \<Rightarrow> (r, w\<lparr>ext := x, trace := trace w @ [FetchEv (fst s) desc (result_err r)]\<rparr>))"

definition storage_Push ::
  "role \<times> 'x storage \<Rightarrow> descriptor \<Rightarrow> 'x readCloser \<Rightarrow> 'x world \<Rightarrow> error option \<times> 'x world" where
  "storage_Push s desc rc w =
     (case Push (snd s) desc rc (ext w) of
        (r, x) \<Rightarrow> (r, w\<lparr>ext := x, trace := trace w @ [PushEv (fst s) desc r]\<rparr>))"

definition storage_Exists ::
  "role \<times> 'x storage \<Rightarrow> descriptor \<Rightarrow> 'x world \<Rightarrow> (error + bool) \<times> 'x world" where
  "storage_Exists s desc w =
     (case Exists (snd s) desc (ext w) of
        (r, x) \<Rightarrow> (r, w\<lparr>ext := x, trace := trace w @ [ExistsEv (fst s) desc r]\<rparr>))"

definition reader_Close :: "role \<Rightarrow> descriptor \<Rightarrow> 'x readCloser \<Rightarrow> 'x world \<Rightarrow> 'x world" where
  "reader_Close r desc rc w =
     (case Close rc (ext w) of
        (e, x) \<Rightarrow> w\<lparr>ext := x, trace := trace w @ [CloseReaderEv r desc]\<rparr>)"

definition call_hook ::
  "hook_kind \<Rightarrow> 'x hook \<Rightarrow> descriptor \<Rightarrow> 'x world \<Rightarrow> error option \<times> 'x world" where
  "call_hook k h desc w =
     (case h desc (ext w) of
        (r, x) \<Rightarrow> (r, w\<lparr>ext := x, trace := trace w @ [HookEv k desc r]\<rparr>))"

section \<open>copyNode and handleCopyNode\<close>

text \<open>
  \<open>copyNode\<close> (copy.go, 213-224): fetch from \<open>src\<close>, push to \<open>dst\<close>; the reader is closed
  by the deferred call on every path after a successful fetch; a push error is
  returned unless \<open>errors.Is(err, errdef.ErrAlreadyExists)\<close>.
\<close>

definition copyNode ::
  "role \<times> 'x storage \<Rightarrow> role \<times> 'x storage \<Rightarrow> descriptor \<Rightarrow> 'x world
     \<Rightarrow> error option \<times> 'x world" where
  "copyNode src dst desc w =
     (case storage_Fetch src desc w of
        (Inl err, w1) \<Rightarrow> (Some err, w1)
      | (Inr rc, w1) \<Rightarrow>
          (case storage_Push dst desc rc w1 of
             (Some err, w2) \<Rightarrow>
               (if \<not> errors_Is err ErrAlreadyExists
                then (Some err, reader_Close (fst src) desc rc w2)
                else (None, reader_Close (fst src) desc rc w2))
           | (None, w2) \<Rightarrow> (None, reader_Close (fst src) desc rc w2)))"

text \<open>\<open>handleCopyNode\<close> (copy.go, 194-210).\<close>

definition handleCopyNode ::
  "role \<times> 'x storage \<Rightarrow> role \<times> 'x storage \<Rightarrow> descriptor \<Rightarrow> 'x CopyGraphOptions
     \<Rightarrow> 'x world \<Rightarrow> error option \<times> 'x world" where
  "handleCopyNode src dst desc opts w =
     (case (case PreCopyHandler opts of
              Some h \<Rightarrow> call_hook PreCopy h desc w
            | None \<Rightarrow> (None, w)) of
        (Some err, w1) \<Rightarrow> (Some err, w1)
      | (None, w1) \<Rightarrow>
          (case copyNode src dst desc w1 of
             (Some err, w2) \<Rightarrow> (Some err, w2)
           | (None, w2) \<Rightarrow>
               (case PostCopyHandler opts of
                  Some h \<Rightarrow> call_hook PostCopy h desc w2
                | None \<Rightarrow> (None, w2))))"

section \<open>The commit tracker and the completion signals\<close>

text \<open>A completion signal is a channel; it is named by the digest of its tracker entry.\<close>

type_synonym chan = digest

text \<open>
  Modelled from the spec: the commit tracker (\<open>status.NewTracker\<close>, \<open>TryCommit\<close> of
  package internal/status) is not among the source files. Spec 4.1: the first call for a
  digest creates the entry, marks it pending and returns a fresh completion signal and
  \<open>wonRace = true\<close>; a call for a digest that has an entry returns the entry's signal and
  \<open>wonRace = false\<close>; the check-and-create step is atomic; the tracker never fails.
\<close>

definition TryCommit :: "descriptor \<Rightarrow> 'x world \<Rightarrow> (chan \<times> bool) \<times> 'x world" where
  "TryCommit desc w =
     (case tracker w (Digest desc) of
        None \<Rightarrow>
          ((Digest desc, True),
           w\<lparr>tracker := (tracker w)(Digest desc \<mapsto> Pending),
             trace := trace w @ [TryCommitEv desc True]\<rparr>)
      | Some e \<Rightarrow>
          ((Digest desc, False), w\<lparr>trace := trace w @ [TryCommitEv desc False]\<rparr>))"

text \<open>
  Go's \<open>close\<close> on the completion signal: the entry becomes done; closing a channel that
  is closed already, or a nil channel, panics (\<open>Inl\<close> the panic message).
\<close>

definition close_chan :: "chan \<Rightarrow> 'x world \<Rightarrow> string + 'x world" where
  "close_chan c w =
     (case tracker w c of
        Some Pending \<Rightarrow>
          Inr (w\<lparr>tracker := (tracker w)(c \<mapsto> Done), trace := trace w @ [CloseEv c]\<rparr>)
      | Some Done \<Rightarrow> Inl ''close of closed channel''
      | None \<Rightarrow> Inl ''close of nil channel'')"

section \<open>The handlers of CopyGraph\<close>

text \<open>
  A handler returns, or panics, or blocks for ever in its \<open>select\<close>.
\<close>

datatype 'a outcome = Returns 'a | Panics string | Blocks

type_synonym 'x handler =
  "descriptor \<Rightarrow> 'x world \<Rightarrow> (error + descriptor list) outcome \<times> 'x world"

datatype semaphore = NewWeighted "64 word"

text \<open>
  What \<open>CopyGraph\<close> takes from packages that are not in copy.go, as parameters:
  \<open>DownEdges src cache\<close> is \<open>content.DownEdges\<close> on \<open>cas.NewProxy(src, cache)\<close>;
  \<open>Select done\<close> is the outcome of the \<open>select\<close> on the completion signal \<open>done\<close> and on
  \<open>ctx.Done()\<close>, which other goroutines and the caller's context decide; \<open>NewMemory\<close>
  is the store \<open>cas.NewMemory()\<close> returns; \<open>Dispatch\<close> is \<open>graph.Dispatch\<close>.
\<close>

record 'x env =
  DownEdges :: "'x storage \<Rightarrow> 'x storage \<Rightarrow> descriptor \<Rightarrow> 'x \<Rightarrow> (error + descriptor list) \<times> 'x"
  Select :: "chan \<Rightarrow> 'x \<Rightarrow> select_result \<times> 'x"
  NewMemory :: "'x storage"
  Dispatch :: "'x handler \<Rightarrow> 'x handler \<Rightarrow> semaphore \<Rightarrow> descriptor \<Rightarrow> 'x world
                 \<Rightarrow> error option outcome \<times> 'x world"

definition content_DownEdges ::
  "'x env \<Rightarrow> role \<times> 'x storage \<Rightarrow> role \<times> 'x storage \<Rightarrow> descriptor \<Rightarrow> 'x world
     \<Rightarrow> (error + descriptor list) \<times> 'x world" where
  "content_DownEdges env src cache desc w =
     (case DownEdges env (snd src) (snd cache) desc (ext w) of
        (r, x) \<Rightarrow> (r, w\<lparr>ext := x, trace := trace w @ [DownEdgesEv desc r]\<rparr>))"

definition select_done :: "'x env \<Rightarrow> chan \<Rightarrow> 'x world \<Rightarrow> select_result \<times> 'x world" where
  "select_done env done w =
     (case Select env done (ext w) of
        (r, x) \<Rightarrow> (r, w\<lparr>ext := x, trace := trace w @ [SelectEv done r]\<rparr>))"

text \<open>\<open>preHandler\<close> (copy.go, 120-145).\<close>

definition preHandler ::
  "'x env \<Rightarrow> role \<times> 'x storage \<Rightarrow> role \<times> 'x storage \<Rightarrow> role \<times> 'x storage
     \<Rightarrow> 'x CopyGraphOptions \<Rightarrow> 'x handler" where
  "preHandler env src dst cache opts desc w =
     (case TryCommit desc w of
        ((done, committed), w1) \<Rightarrow>
          if \<not> committed then (Returns (Inl ErrSkipDesc), w1)
          else
            (case storage_Exists dst desc w1 of
               (Inl err, w2) \<Rightarrow> (Returns (Inl err), w2)
             | (Inr exists, w2) \<Rightarrow>
                 if exists then
                   (case close_chan done w2 of
                      Inl p \<Rightarrow> (Panics p, w2)
                    | Inr w3 \<Rightarrow>
                        (case SkippedCopyHandler opts of
                           Some h \<Rightarrow>
                             (case call_hook SkippedCopy h desc w3 of
                                (Some err, w4) \<Rightarrow> (Returns (Inl err), w4)
                              | (None, w4) \<Rightarrow> (Returns (Inl ErrSkipDesc), w4))
                         | None \<Rightarrow> (Returns (Inl ErrSkipDesc), w3)))
                 else
                   (case content_DownEdges env src cache desc w2 of
                      (r, w3) \<Rightarrow> (Returns r, w3))))"

text \<open>
  The \<open>for\<close> loop of \<open>postHandler\<close> (copy.go, 172-182) over the down edges: \<open>None\<close> when
  the loop ends, the error of the \<open>return\<close> inside it otherwise.
\<close>

definition down_edge_not_committed :: "descriptor \<Rightarrow> descriptor \<Rightarrow> error" where
  "down_edge_not_committed desc node =
     ErrorString (Digest desc @ '': '' @ Digest node @ '': down edge not committed'')"

fun waitDownEdges ::
  "'x env \<Rightarrow> descriptor \<Rightarrow> descriptor list \<Rightarrow> 'x world \<Rightarrow> error option outcome \<times> 'x world" where
  "waitDownEdges env desc [] w = (Returns None, w)"
| "waitDownEdges env desc (node # downEdges) w =
     (case TryCommit node w of
        ((done, committed), w1) \<Rightarrow>
          if committed then (Returns (Some (down_edge_not_committed desc node)), w1)
          else
            (case select_done env done w1 of
               (DoneReceived, w2) \<Rightarrow> waitDownEdges env desc downEdges w2
             | (CtxDone err, w2) \<Rightarrow> (Returns (Some err), w2)
             | (NeverReady, w2) \<Rightarrow> (Blocks, w2)))"

text \<open>The body of \<open>postHandler\<close> (copy.go, 157-183), before the deferred function.\<close>

definition postHandler_body ::
  "'x env \<Rightarrow> role \<times> 'x storage \<Rightarrow> role \<times> 'x storage \<Rightarrow> role \<times> 'x storage
     \<Rightarrow> 'x CopyGraphOptions \<Rightarrow> 'x handler" where
  "postHandler_body env src dst cache opts desc w =
     (case storage_Exists cache desc w of
        (Inl err, w1) \<Rightarrow> (Returns (Inl err), w1)
      | (Inr exists, w1) \<Rightarrow>
          if \<not> exists then
            (case handleCopyNode src dst desc opts w1 of
               (Some err, w2) \<Rightarrow> (Returns (Inl err), w2)
             | (None, w2) \<Rightarrow> (Returns (Inr []), w2))
          else
            (case content_DownEdges env src cache desc w1 of
               (Inl err, w2) \<Rightarrow> (Returns (Inl err), w2)
             | (Inr downEdges, w2) \<Rightarrow>
                 (case waitDownEdges env desc downEdges w2 of
                    (Returns (Some err), w3) \<Rightarrow> (Returns (Inl err), w3)
                  | (Panics p, w3) \<Rightarrow> (Panics p, w3)
                  | (Blocks, w3) \<Rightarrow> (Blocks, w3)
                  | (Returns None, w3) \<Rightarrow>
                      (case handleCopyNode cache dst desc opts w3 of
                         (Some err, w4) \<Rightarrow> (Returns (Inl err), w4)
                       | (None, w4) \<Rightarrow> (Returns (Inr []), w4)))))"

text \<open>
  \<open>postHandler\<close> (copy.go, 148-184): the body, then the deferred function (149-155),
  which commits and closes the completion signal when the body returned with
  \<open>err == nil\<close>.
\<close>

definition postHandler ::
  "'x env \<Rightarrow> role \<times> 'x storage \<Rightarrow> role \<times> 'x storage \<Rightarrow> role \<times> 'x storage
     \<Rightarrow> 'x CopyGraphOptions \<Rightarrow> 'x handler" where
  "postHandler env src dst cache opts desc w =
     (case postHandler_body env src dst cache opts desc w of
        (Returns (Inr nodes), w1) \<Rightarrow>
          (case TryCommit desc w1 of
             ((done, committed), w2) \<Rightarrow>
               (case close_chan done w2 of
                  Inl p \<Rightarrow> (Panics p, w2)
                | Inr w3 \<Rightarrow> (Returns (Inr nodes), w3)))
      | (Returns (Inl err), w1) \<Rightarrow> (Returns (Inl err), w1)
      | (Panics p, w1) \<Rightarrow> (Panics p, w1)
      | (Blocks, w1) \<Rightarrow> (Blocks, w1))"

section \<open>CopyGraph and Copy\<close>

definition defaultConcurrency :: "64 word" where
  "defaultConcurrency = 3"

text \<open>
  \<open>CopyGraph\<close> (copy.go, 109-191). The closures read \<open>opts\<close> when they run, that is
  after both assignments to it.
\<close>

definition CopyGraph ::
  "'x env \<Rightarrow> 'x storage \<Rightarrow> 'x storage \<Rightarrow> descriptor \<Rightarrow> 'x CopyGraphOptions \<Rightarrow> 'x world
     \<Rightarrow> error option outcome \<times> 'x world" where
  "CopyGraph env src dst root opts w =
     (let opts1 = (if Cache opts = None then opts\<lparr>Cache := Some (NewMemory env)\<rparr> else opts);
          cache = (case Cache opts1 of Some c \<Rightarrow> c | None \<Rightarrow> NewMemory env);
          opts2 = (if sint (Concurrency opts1) \<le> 0
                   then opts1\<lparr>Concurrency := defaultConcurrency\<rparr> else opts1)
      in Dispatch env
           (preHandler env (Source, src) (Destination, dst) (CacheStore, cache) opts2)
           (postHandler env (Source, src) (Destination, dst) (CacheStore, cache) opts2)
           (NewWeighted (Concurrency opts2)) root w)"

text \<open>
  A \<open>Target\<close> is a storage that also resolves and tags references; a nil interface value
  is \<open>None\<close>. \<open>CopyOptions\<close> embeds \<open>CopyGraphOptions\<close>.
\<close>

record 'x target =
  Storage :: "'x storage"
  Resolve :: "string \<Rightarrow> 'x \<Rightarrow> (error + descriptor) \<times> 'x"
  Tag :: "descriptor \<Rightarrow> string \<Rightarrow> 'x \<Rightarrow> error option \<times> 'x"

record 'x CopyOptions =
  GraphOptions :: "'x CopyGraphOptions"
  RootFilter :: "(descriptor \<Rightarrow> 'x \<Rightarrow> (error + descriptor \<times> bool) \<times> 'x) option"

definition target_Resolve ::
  "role \<Rightarrow> 'x target \<Rightarrow> string \<Rightarrow> 'x world \<Rightarrow> (error + descriptor) \<times> 'x world" where
  "target_Resolve r t ref w =
     (case Resolve t ref (ext w) of
        (res, x) \<Rightarrow> (res, w\<lparr>ext := x, trace := trace w @ [ResolveEv r ref res]\<rparr>))"

definition target_Tag ::
  "role \<Rightarrow> 'x target \<Rightarrow> descriptor \<Rightarrow> string \<Rightarrow> 'x world \<Rightarrow> error option \<times> 'x world" where
  "target_Tag r t desc ref w =
     (case Tag t desc ref (ext w) of
        (res, x) \<Rightarrow> (res, w\<lparr>ext := x, trace := trace w @ [TagEv r desc ref res]\<rparr>))"

definition call_RootFilter ::
  "(descriptor \<Rightarrow> 'x \<Rightarrow> (error + descriptor \<times> bool) \<times> 'x) \<Rightarrow> descriptor \<Rightarrow> 'x world
     \<Rightarrow> (error + descriptor \<times> bool) \<times> 'x world" where
  "call_RootFilter f root w =
     (case f root (ext w) of
        (res, x) \<Rightarrow> (res, w\<lparr>ext := x, trace := trace w @ [RootFilterEv root res]\<rparr>))"

text \<open>
  \<open>Copy\<close> (copy.go, 69-105); \<open>Copy_from_root\<close> is the part after the root is settled
  (96-104).
\<close>

definition Copy_from_root ::
  "'x env \<Rightarrow> 'x target \<Rightarrow> 'x target \<Rightarrow> string \<Rightarrow> 'x CopyOptions \<Rightarrow> descriptor \<Rightarrow> 'x world
     \<Rightarrow> (error + descriptor) outcome \<times> 'x world" where
  "Copy_from_root env src dst dstRef opts root w =
     (case CopyGraph env (Storage src) (Storage dst) root (GraphOptions opts) w of
        (Returns (Some err), w1) \<Rightarrow> (Returns (Inl err), w1)
      | (Panics p, w1) \<Rightarrow> (Panics p, w1)
      | (Blocks, w1) \<Rightarrow> (Blocks, w1)
      | (Returns None, w1) \<Rightarrow>
          (case target_Tag Destination dst root dstRef w1 of
             (Some err, w2) \<Rightarrow> (Returns (Inl err), w2)
           | (None, w2) \<Rightarrow> (Returns (Inr root), w2)))"

definition Copy ::
  "'x env \<Rightarrow> 'x target option \<Rightarrow> string \<Rightarrow> 'x target option \<Rightarrow> string \<Rightarrow> 'x CopyOptions
     \<Rightarrow> 'x world \<Rightarrow> (error + descriptor) outcome \<times> 'x world" where
  "Copy env src srcRef dst dstRef opts w =
     (case src of
        None \<Rightarrow> (Returns (Inl (errors_New ''nil source target'')), w)
      | Some s \<Rightarrow>
          (case dst of
             None \<Rightarrow> (Returns (Inl (errors_New ''nil destination target'')), w)
           | Some d \<Rightarrow>
               (let dstRef1 = (if dstRef = [] then srcRef else dstRef) in
                case target_Resolve Source s srcRef w of
                  (Inl err, w1) \<Rightarrow> (Returns (Inl err), w1)
                | (Inr root, w1) \<Rightarrow>
                    (case RootFilter opts of
                       Some f \<Rightarrow>
                         (case call_RootFilter f root w1 of
                            (Inl err, w2) \<Rightarrow> (Returns (Inl err), w2)
                          | (Inr (filtered, found), w2) \<Rightarrow>
                              if \<not> found then (Returns (Inl ErrNotFound), w2)
                              else Copy_from_root env s d dstRef1 opts filtered w2)
                     | None \<Rightarrow> Copy_from_root env s d dstRef1 opts root w1))))"

section \<open>Traces of the handlers\<close>

text \<open>The events a call appended to the trace: \<open>w\<close> before the call, \<open>w'\<close> after.\<close>

definition events_of :: "'x world \<Rightarrow> 'x world \<Rightarrow> event list" where
  "events_of w w' = drop (length (trace w)) (trace w')"

text \<open>
  The events of the three hooks in a trace of \<open>handleCopyNode\<close> and of \<open>preHandler\<close>: a
  hook that is nil leaves no event. \<open>push_ok\<close> holds of the results of \<open>Push\<close> after
  which \<open>copyNode\<close> returns nil.
\<close>

definition pre_part :: "'x CopyGraphOptions \<Rightarrow> descriptor \<Rightarrow> event list" where
  "pre_part opts desc = (case PreCopyHandler opts of None \<Rightarrow> [] | Some h \<Rightarrow> [HookEv PreCopy desc None])"

definition post_part :: "'x CopyGraphOptions \<Rightarrow> descriptor \<Rightarrow> error option \<Rightarrow> event list" where
  "post_part opts desc r = (case PostCopyHandler opts of None \<Rightarrow> [] | Some h \<Rightarrow> [HookEv PostCopy desc r])"

definition skipped_part :: "'x CopyGraphOptions \<Rightarrow> descriptor \<Rightarrow> error option \<Rightarrow> event list" where
  "skipped_part opts desc r =
     (case SkippedCopyHandler opts of None \<Rightarrow> [] | Some h \<Rightarrow> [HookEv SkippedCopy desc r])"

definition push_ok :: "error option \<Rightarrow> bool" where
  "push_ok e = (case e of None \<Rightarrow> True | Some err \<Rightarrow> errors_Is err ErrAlreadyExists)"

text \<open>The events of the wait loop: commits and selects.\<close>

fun is_wait_event :: "event \<Rightarrow> bool" where
  "is_wait_event (TryCommitEv d b) = True"
| "is_wait_event (SelectEv c r) = True"
| "is_wait_event e = False"

text \<open>
  The events of \<open>handleCopyNode src dst desc opts\<close> when it returns \<open>r\<close>: the pre-copy
  hook fails; or the fetch fails; or the push fails with an error that is not
  \<open>ErrAlreadyExists\<close>; or the transfer succeeds and the post-copy hook, if any, runs.
\<close>

definition transfer_events ::
  "role \<Rightarrow> role \<Rightarrow> descriptor \<Rightarrow> 'x CopyGraphOptions \<Rightarrow> error option \<Rightarrow> event list \<Rightarrow> bool" where
  "transfer_events s d desc opts r es \<longleftrightarrow>
     (\<exists>e. PreCopyHandler opts \<noteq> None \<and> es = [HookEv PreCopy desc (Some e)] \<and> r = Some e) \<or>
     (\<exists>e. es = pre_part opts desc @ [FetchEv s desc (Some e)] \<and> r = Some e) \<or>
     (\<exists>e. \<not> push_ok e \<and> r = e \<and>
          es = pre_part opts desc @ [FetchEv s desc None, PushEv d desc e, CloseReaderEv s desc]) \<or>
     (\<exists>e. push_ok e \<and> (PostCopyHandler opts = None \<longrightarrow> r = None) \<and>
          es = pre_part opts desc @ [FetchEv s desc None, PushEv d desc e, CloseReaderEv s desc]
                 @ post_part opts desc r)"

definition is_push :: "event \<Rightarrow> bool" where
  "is_push e = (case e of PushEv ro d r \<Rightarrow> True | _ \<Rightarrow> False)"

text \<open>
  What a handler returns for the result \<open>rh\<close> of \<open>handleCopyNode\<close>, and the events of the
  deferred function of \<open>postHandler\<close>: none after an error, a commit and a close after
  success, a commit alone when the close panics.
\<close>

definition to_result :: "error option \<Rightarrow> (error + descriptor list) outcome" where
  "to_result rh = Returns (case rh of Some e \<Rightarrow> Inl e | None \<Rightarrow> Inr [])"

definition deferred ::
  "descriptor \<Rightarrow> error option \<Rightarrow> (error + descriptor list) outcome \<Rightarrow> event list \<Rightarrow> bool" where
  "deferred desc rh r fin \<longleftrightarrow>
     (\<exists>e. rh = Some e \<and> fin = [] \<and> r = Returns (Inl e)) \<or>
     (\<exists>b. rh = None \<and> fin = [TryCommitEv desc b, CloseEv (Digest desc)] \<and> r = Returns (Inr [])) \<or>
     (\<exists>b p. rh = None \<and> fin = [TryCommitEv desc b] \<and> r = Panics p)"

section \<open>Visits\<close>

text \<open>A step of the scheduler: it enters a node (Pre-Visit) or leaves it (Post-Visit).\<close>

datatype step = Enter descriptor | Leave descriptor

text \<open>
  Modelled from the spec: the scheduler (\<open>graph.Dispatch\<close>) is not among the source
  files. Spec 2 and 5: for each node visited the scheduler calls Pre-Visit, which skips
  or returns children, and calls Post-Visit of a node once, only after Pre-Visit of that
  node returned children. A schedule is any sequence of handler calls within these
  rules: \<open>Enter d\<close> runs Pre-Visit of \<open>d\<close>, and \<open>d\<close> becomes pending when it returned
  children; \<open>Leave d\<close> runs Post-Visit of a pending \<open>d\<close>, which is then no longer
  pending. The order of the steps is free: which node a worker enters or leaves next is
  the scheduler's choice. Each handler call runs to its end before the next starts: the
  steps of two handler calls are not interleaved. The tracker is the only state the
  handlers share, and they touch it through \<open>TryCommit\<close> and \<open>close\<close> alone.
\<close>

fun schedule ::
  "'x env \<Rightarrow> role \<times> 'x storage \<Rightarrow> role \<times> 'x storage \<Rightarrow> role \<times> 'x storage
     \<Rightarrow> 'x CopyGraphOptions \<Rightarrow> step list \<Rightarrow> 'x world \<times> descriptor list
     \<Rightarrow> 'x world \<times> descriptor list" where
  "schedule env src dst cache opts [] s = s"
| "schedule env src dst cache opts (Enter d # steps) (w, pending) =
     (case preHandler env src dst cache opts d w of
        (Returns (Inr nodes), w1) \<Rightarrow> schedule env src dst cache opts steps (w1, d # pending)
      | (r, w1) \<Rightarrow> schedule env src dst cache opts steps (w1, pending))"
| "schedule env src dst cache opts (Leave d # steps) (w, pending) =
     (if d \<in> set pending
      then schedule env src dst cache opts steps
             (snd (postHandler env src dst cache opts d w), remove1 d pending)
      else schedule env src dst cache opts steps (w, pending))"

text \<open>
  The digests committed by a winning \<open>TryCommit\<close>, and the digests pushed to the storage
  in role \<open>ro\<close>, in the order of the trace.
\<close>

fun won :: "event \<Rightarrow> digest list" where
  "won (TryCommitEv d True) = [Digest d]"
| "won e = []"

definition winners :: "event list \<Rightarrow> digest list" where
  "winners es = concat (map won es)"

fun push_of :: "role \<Rightarrow> event \<Rightarrow> digest list" where
  "push_of ro (PushEv ro' d r) = (if ro' = ro then [Digest d] else [])"
| "push_of ro e = []"

definition pushes :: "role \<Rightarrow> event list \<Rightarrow> digest list" where
  "pushes ro es = concat (map (push_of ro) es)"

text \<open>
  \<open>acct w w'\<close>: from \<open>w\<close> to \<open>w'\<close> the trace grew, and the tracker gained exactly the
  digests whose commit was won, each once, none of which it had.
\<close>

definition acct :: "'x world \<Rightarrow> 'x world \<Rightarrow> bool" where
  "acct w w' \<longleftrightarrow>
     (\<exists>es. trace w' = trace w @ es \<and> distinct (winners es) \<and>
           set (winners es) \<inter> dom (tracker w) = {} \<and>
           dom (tracker w') = dom (tracker w) \<union> set (winners es))"

text \<open>
  The digests a trace marks as skipped (the destination reported the node present, or the
  skipped-hook was called for it) and as copied (fetched, pushed, enumerated, or given to
  the pre-copy or post-copy hook); the digests a hook of kind \<open>k\<close> was called for.
\<close>

fun skip_mark :: "role \<Rightarrow> event \<Rightarrow> digest list" where
  "skip_mark ro (ExistsEv ro' d (Inr True)) = (if ro' = ro then [Digest d] else [])"
| "skip_mark ro (HookEv SkippedCopy d r) = [Digest d]"
| "skip_mark ro e = []"

definition skip_marks :: "role \<Rightarrow> event list \<Rightarrow> digest list" where
  "skip_marks ro es = concat (map (skip_mark ro) es)"

fun copy_mark :: "event \<Rightarrow> digest list" where
  "copy_mark (FetchEv ro d r) = [Digest d]"
| "copy_mark (PushEv ro d r) = [Digest d]"
| "copy_mark (DownEdgesEv d r) = [Digest d]"
| "copy_mark (HookEv PreCopy d r) = [Digest d]"
| "copy_mark (HookEv PostCopy d r) = [Digest d]"
| "copy_mark e = []"

definition copy_marks :: "event list \<Rightarrow> digest list" where
  "copy_marks es = concat (map copy_mark es)"

fun hook_call :: "hook_kind \<Rightarrow> event \<Rightarrow> digest list" where
  "hook_call k (HookEv k' d r) = (if k' = k then [Digest d] else [])"
| "hook_call k e = []"

definition hook_calls :: "hook_kind \<Rightarrow> event list \<Rightarrow> digest list" where
  "hook_calls k es = concat (map (hook_call k) es)"

text \<open>The invariants of a schedule: the world and the pending nodes.\<close>

definition sched_inv :: "role \<Rightarrow> 'x world \<times> descriptor list \<Rightarrow> bool" where
  "sched_inv ro s \<longleftrightarrow>
     (case s of (w, pending) \<Rightarrow>
        distinct (winners (trace w)) \<and> set (winners (trace w)) \<subseteq> dom (tracker w) \<and>
        distinct (pushes ro (trace w)) \<and> set (pushes ro (trace w)) \<subseteq> dom (tracker w) \<and>
        distinct (map Digest pending) \<and> Digest ` set pending \<subseteq> dom (tracker w) \<and>
        Digest ` set pending \<inter> set (pushes ro (trace w)) = {})"

definition marks_inv :: "role \<Rightarrow> 'x world \<times> descriptor list \<Rightarrow> bool" where
  "marks_inv ro s \<longleftrightarrow>
     (case s of (w, pending) \<Rightarrow>
        set (skip_marks ro (trace w)) \<subseteq> dom (tracker w) \<and>
        set (copy_marks (trace w)) \<subseteq> dom (tracker w) \<and>
        Digest ` set pending \<subseteq> dom (tracker w) \<and>
        set (skip_marks ro (trace w)) \<inter> set (copy_marks (trace w)) = {} \<and>
        set (skip_marks ro (trace w)) \<inter> Digest ` set pending = {} \<and>
        distinct (hook_calls SkippedCopy (trace w)))"

subsection \<open>A small outside world for concrete runs\<close>

text \<open>
  The state of the outside world counts the calls made to it. \<open>store0 present pushed\<close>
  answers \<open>Exists\<close> with \<open>present\<close> and \<open>Push\<close> with \<open>pushed\<close>; \<open>hook0 r\<close> is a hook that
  returns \<open>r\<close>.
\<close>

definition reader0 :: "nat readCloser" where
  "reader0 = \<lparr>Close = (\<lambda>x. (None, Suc x))\<rparr>"

definition store0 :: "bool \<Rightarrow> error option \<Rightarrow> nat storage" where
  "store0 present pushed =
     \<lparr>Fetch = (\<lambda>d x. (Inr reader0, Suc x)),
      Push = (\<lambda>d rc x. (pushed, Suc x)),
      Exists = (\<lambda>d x. (Inr present, Suc x))\<rparr>"

definition layer0 :: descriptor where
  "layer0 = \<lparr>MediaType = ''application/vnd.oci.image.layer.v1.tar'', Digest = ''sha256:1a'', Size = 4\<rparr>"

definition manifest0 :: descriptor where
  "manifest0 = \<lparr>MediaType = ''application/vnd.oci.image.manifest.v1+json'', Digest = ''sha256:3f'', Size = 9\<rparr>"

definition world0 :: "nat world" where
  "world0 = \<lparr>tracker = Map.empty, ext = 0, trace = []\<rparr>"

definition hook0 :: "error option \<Rightarrow> nat hook" where
  "hook0 r = (\<lambda>d x. (r, Suc x))"

definition opts0 :: "nat hook option \<Rightarrow> nat hook option \<Rightarrow> nat hook option \<Rightarrow> nat CopyGraphOptions" where
  "opts0 pre post skipped =
     \<lparr>Concurrency = 0, Cache = None, PreCopyHandler = pre, PostCopyHandler = post,
      SkippedCopyHandler = skipped\<rparr>"

text \<open>
  \<open>dispatch0\<close> is a scheduler that visits the root only; \<open>env0 children\<close> finds the same
  down edges for every node and lets every \<open>select\<close> receive the completion signal;
  \<open>target0\<close> resolves every reference to \<open>layer0\<close>. In \<open>world1\<close> the layer has
  been copied already and the manifest is claimed.
\<close>

definition dispatch0 ::
  "nat handler \<Rightarrow> nat handler \<Rightarrow> semaphore \<Rightarrow> descriptor \<Rightarrow> nat world
     \<Rightarrow> error option outcome \<times> nat world" where
  "dispatch0 pre post limiter root w =
     (case pre root w of
        (Returns (Inl e), w1) \<Rightarrow> (Returns (if errors_Is e ErrSkipDesc then None else Some e), w1)
      | (Returns (Inr nodes), w1) \<Rightarrow>
          (case post root w1 of
             (Returns (Inl e), w2) \<Rightarrow> (Returns (Some e), w2)
           | (Returns (Inr ns), w2) \<Rightarrow> (Returns None, w2)
           | (Panics p, w2) \<Rightarrow> (Panics p, w2)
           | (Blocks, w2) \<Rightarrow> (Blocks, w2))
      | (Panics p, w1) \<Rightarrow> (Panics p, w1)
      | (Blocks, w1) \<Rightarrow> (Blocks, w1))"

definition env0 :: "descriptor list \<Rightarrow> nat env" where
  "env0 children =
     \<lparr>DownEdges = (\<lambda>s c d x. (Inr children, Suc x)),
      Select = (\<lambda>c x. (DoneReceived, Suc x)),
      NewMemory = store0 False None,
      Dispatch = dispatch0\<rparr>"

definition target0 :: "bool \<Rightarrow> nat target" where
  "target0 present =
     \<lparr>Storage = store0 present None,
      Resolve = (\<lambda>ref x. (Inr layer0, Suc x)),
      Tag = (\<lambda>d ref x. (None, Suc x))\<rparr>"

definition copyopts0 :: "nat CopyOptions" where
  "copyopts0 = \<lparr>GraphOptions = opts0 None None None, RootFilter = None\<rparr>"

definition world1 :: "nat world" where
  "world1 = \<lparr>tracker = [Digest layer0 \<mapsto> Done, Digest manifest0 \<mapsto> Pending],
             ext = 0, trace = []\<rparr>"

text \<open>
  \<open>cache1\<close> holds the manifest only, and \<open>env1\<close> finds the layer below the manifest and
  nothing below the layer; \<open>steps1\<close> enters the manifest, enters the layer twice, and
  leaves both.
\<close>

definition cache1 :: "nat storage" where
  "cache1 =
     \<lparr>Fetch = (\<lambda>d x. (Inr reader0, Suc x)),
      Push = (\<lambda>d rc x. (None, Suc x)),
      Exists = (\<lambda>d x. (Inr (Digest d = Digest manifest0), Suc x))\<rparr>"

definition env1 :: "nat env" where
  "env1 =
     \<lparr>DownEdges = (\<lambda>s c d x. (Inr (if Digest d = Digest manifest0 then [layer0] else []), Suc x)),
      Select = (\<lambda>c x. (DoneReceived, Suc x)),
      NewMemory = cache1,
      Dispatch = dispatch0\<rparr>"

definition steps1 :: "step list" where
  "steps1 = [Enter manifest0, Enter layer0, Enter layer0, Leave layer0, Leave manifest0]"

section \<open>What each call appends to the trace\<close>

lemma events_of_append: "trace w' = trace w @ es \<Longrightarrow> events_of w w' = es"
  by (simp add: events_of_def)

lemma push_ok_simps [simp]:
  "push_ok None" "push_ok (Some err) = errors_Is err ErrAlreadyExists"
  by (simp_all add: push_ok_def)

lemma TryCommit_cases:
  assumes "TryCommit d w = ((c, b), w')"
  shows "c = Digest d \<and> ext w' = ext w \<and> trace w' = trace w @ [TryCommitEv d b] \<and>
         b = (tracker w (Digest d) = None) \<and>
         tracker w' = (if b then (tracker w)(Digest d \<mapsto> Pending) else tracker w)"
  using assms by (auto simp: TryCommit_def split: option.splits)

lemma close_chan_Inr:
  assumes "close_chan c w = Inr w'"
  shows "tracker w c = Some Pending \<and> ext w' = ext w \<and> trace w' = trace w @ [CloseEv c] \<and>
         tracker w' = (tracker w)(c \<mapsto> Done)"
  using assms by (auto simp: close_chan_def split: option.splits entry.splits)

lemma storage_Exists_cases:
  assumes "storage_Exists s d w = (r, w')"
  shows "tracker w' = tracker w \<and> trace w' = trace w @ [ExistsEv (fst s) d r] \<and>
         r = fst (Exists (snd s) d (ext w)) \<and> ext w' = snd (Exists (snd s) d (ext w))"
  using assms by (auto simp: storage_Exists_def split: prod.splits)

lemma content_DownEdges_cases:
  assumes "content_DownEdges env src cache d w = (r, w')"
  shows "tracker w' = tracker w \<and> trace w' = trace w @ [DownEdgesEv d r] \<and>
         r = fst (DownEdges env (snd src) (snd cache) d (ext w)) \<and>
         ext w' = snd (DownEdges env (snd src) (snd cache) d (ext w))"
  using assms by (auto simp: content_DownEdges_def split: prod.splits)

lemma select_done_cases:
  assumes "select_done env c w = (r, w')"
  shows "tracker w' = tracker w \<and> trace w' = trace w @ [SelectEv c r]"
  using assms by (auto simp: select_done_def split: prod.splits)

lemma copyNode_trace:
  assumes "copyNode src dst desc w = (r, w')"
  shows "tracker w' = tracker w \<and>
    ((\<exists>e. trace w' = trace w @ [FetchEv (fst src) desc (Some e)] \<and> r = Some e) \<or>
     (\<exists>e. \<not> push_ok e \<and> trace w' = trace w @ [FetchEv (fst src) desc None, PushEv (fst dst) desc e, CloseReaderEv (fst src) desc]
          \<and> r = e) \<or>
     (\<exists>e. push_ok e \<and> trace w' = trace w @ [FetchEv (fst src) desc None, PushEv (fst dst) desc e, CloseReaderEv (fst src) desc]
          \<and> r = None))"
  using assms
  by (auto simp: copyNode_def storage_Fetch_def storage_Push_def reader_Close_def result_err_def
      split: prod.splits sum.splits option.splits if_splits)

lemma handleCopyNode_trace:
  assumes "handleCopyNode src dst desc opts w = (r, w')"
  shows "tracker w' = tracker w \<and>
    ((\<exists>e. PreCopyHandler opts \<noteq> None \<and> trace w' = trace w @ [HookEv PreCopy desc (Some e)] \<and> r = Some e) \<or>
     (\<exists>e. trace w' = trace w @ pre_part opts desc @ [FetchEv (fst src) desc (Some e)] \<and> r = Some e) \<or>
     (\<exists>e. \<not> push_ok e \<and> trace w' = trace w @ pre_part opts desc @
            [FetchEv (fst src) desc None, PushEv (fst dst) desc e, CloseReaderEv (fst src) desc] \<and> r = e) \<or>
     (\<exists>e. push_ok e \<and> trace w' = trace w @ pre_part opts desc @
            [FetchEv (fst src) desc None, PushEv (fst dst) desc e, CloseReaderEv (fst src) desc] @ post_part opts desc r
          \<and> (PostCopyHandler opts = None \<longrightarrow> r = None)))"
proof -
  obtain r0 w0 where pre: "(case PreCopyHandler opts of Some h \<Rightarrow> call_hook PreCopy h desc w | None \<Rightarrow> (None, w)) = (r0, w0)"
    by fastforce
  have pre_tr: "tracker w0 = tracker w \<and>
      ((\<exists>e. r0 = Some e \<and> PreCopyHandler opts \<noteq> None \<and> trace w0 = trace w @ [HookEv PreCopy desc (Some e)])
       \<or> (r0 = None \<and> trace w0 = trace w @ pre_part opts desc))"
    using pre by (auto simp: call_hook_def pre_part_def split: option.splits prod.splits)
  show ?thesis
  proof (cases r0)
    case (Some e)
    then have "r = Some e" "w' = w0"
      using assms pre by (auto simp: handleCopyNode_def)
    then show ?thesis using pre_tr Some by auto
  next
    case None
    obtain r1 w1 where cn: "copyNode src dst desc w0 = (r1, w1)" by fastforce
    note ct = copyNode_trace[OF cn]
    show ?thesis
    proof (cases r1)
      case (Some e)
      then have "r = Some e" "w' = w1"
        using assms pre cn None by (auto simp: handleCopyNode_def)
      then show ?thesis using pre_tr None ct Some
        by auto
    next
      case rn: None
      then have post: "(case PostCopyHandler opts of Some h \<Rightarrow> call_hook PostCopy h desc w1 | None \<Rightarrow> (None, w1)) = (r, w')"
        using assms pre cn None by (auto simp: handleCopyNode_def)
      then have "tracker w' = tracker w1 \<and> trace w' = trace w1 @ post_part opts desc r \<and> (PostCopyHandler opts = None \<longrightarrow> r = None)"
        by (auto simp: call_hook_def post_part_def split: option.splits prod.splits)
      then show ?thesis using pre_tr None ct rn
        by auto
    qed
  qed
qed

lemma waitDownEdges_trace:
  "waitDownEdges env desc nodes w = (r, w') \<Longrightarrow>
    \<exists>es. trace w' = trace w @ es \<and> (\<forall>e\<in>set es. is_wait_event e) \<and>
      (\<forall>k. (tracker w' k = Some Done) = (tracker w k = Some Done)) \<and>
      (r = Returns None \<longrightarrow> tracker w' = tracker w \<and>
         (\<forall>c\<in>set nodes. Digest c \<in> dom (tracker w)) \<and>
         (\<forall>c\<in>set nodes. SelectEv (Digest c) DoneReceived \<in> set es)) \<and>
      (\<forall>c. TryCommitEv c True \<in> set es \<longrightarrow>
            r = Returns (Some (down_edge_not_committed desc c)) \<and> c \<in> set nodes) \<and>
      ((\<forall>c\<in>set nodes. Digest c \<in> dom (tracker w)) \<longrightarrow> (\<forall>c. TryCommitEv c True \<notin> set es))"
proof (induction nodes arbitrary: w)
  case Nil
  then show ?case by simp
next
  case (Cons node nodes)
  obtain c b w1 where tc: "TryCommit node w = ((c, b), w1)"
    by (metis prod.exhaust)
  note t1 = TryCommit_cases[OF tc]
  show ?case
  proof (cases b)
    case True
    then have rw: "r = Returns (Some (down_edge_not_committed desc node))" "w' = w1"
      using Cons.prems tc by auto
    have "trace w' = trace w @ [TryCommitEv node True]"
      "\<forall>k. (tracker w' k = Some Done) = (tracker w k = Some Done)"
      "Digest node \<notin> dom (tracker w)"
      using t1 True rw by (auto simp: domIff)
    then show ?thesis using rw(1)
      by (intro exI[of _ "[TryCommitEv node True]"]) simp
  next
    case False
    obtain sr w2 where sd: "select_done env c w1 = (sr, w2)"
      by fastforce
    note t2 = select_done_cases[OF sd]
    have tr: "tracker w2 = tracker w" "Digest node \<in> dom (tracker w)" "c = Digest node"
      "trace w2 = trace w @ [TryCommitEv node False, SelectEv c sr]"
      using t1 t2 False by (auto simp: domIff)
    show ?thesis
    proof (cases sr)
      case DoneReceived
      then have rec: "waitDownEdges env desc nodes w2 = (r, w')"
        using Cons.prems tc sd False by auto
      from Cons.IH[OF rec] obtain es where es:
        "trace w' = trace w2 @ es" "\<forall>e\<in>set es. is_wait_event e"
        "\<forall>k. (tracker w' k = Some Done) = (tracker w2 k = Some Done)"
        "r = Returns None \<longrightarrow> tracker w' = tracker w2 \<and>
           (\<forall>c\<in>set nodes. Digest c \<in> dom (tracker w2)) \<and>
           (\<forall>c\<in>set nodes. SelectEv (Digest c) DoneReceived \<in> set es)"
        "\<forall>c. TryCommitEv c True \<in> set es \<longrightarrow>
            r = Returns (Some (down_edge_not_committed desc c)) \<and> c \<in> set nodes"
        "(\<forall>c\<in>set nodes. Digest c \<in> dom (tracker w2)) \<longrightarrow> (\<forall>c. TryCommitEv c True \<notin> set es)"
        by blast
      let ?es = "TryCommitEv node False # SelectEv c DoneReceived # es"
      have 1: "trace w' = trace w @ ?es"
        using es(1) tr(4) DoneReceived by simp
      have 2: "\<forall>e\<in>set ?es. is_wait_event e" using es(2) by simp
      have 3: "\<forall>k. (tracker w' k = Some Done) = (tracker w k = Some Done)"
        using es(3) tr(1) by simp
      have 4: "r = Returns None \<longrightarrow> tracker w' = tracker w \<and>
         (\<forall>c\<in>set (node # nodes). Digest c \<in> dom (tracker w)) \<and>
         (\<forall>c\<in>set (node # nodes). SelectEv (Digest c) DoneReceived \<in> set ?es)"
        using es(4) tr(1,2,3) by simp
      have 5: "\<forall>c. TryCommitEv c True \<in> set ?es \<longrightarrow>
            r = Returns (Some (down_edge_not_committed desc c)) \<and> c \<in> set (node # nodes)"
        using es(5) by simp
      have 6: "(\<forall>c\<in>set (node # nodes). Digest c \<in> dom (tracker w)) \<longrightarrow>
            (\<forall>c. TryCommitEv c True \<notin> set ?es)"
        using es(6) tr(1) by simp
      show ?thesis using 1 2 3 4 5 6 by blast
    next
      case (CtxDone err)
      then have "r = Returns (Some err)" "w' = w2"
        using Cons.prems tc sd False by auto
      then show ?thesis using tr CtxDone
        by (intro exI[of _ "[TryCommitEv node False, SelectEv c (CtxDone err)]"]) simp
    next
      case NeverReady
      then have "r = Blocks" "w' = w2"
        using Cons.prems tc sd False by auto
      then show ?thesis using tr NeverReady
        by (intro exI[of _ "[TryCommitEv node False, SelectEv c NeverReady]"]) simp
    qed
  qed
qed

lemma postHandler_body_cases:
  assumes "postHandler_body env src dst cache opts desc w = (r, w')"
  obtains
    (exists_err) e where "storage_Exists cache desc w = (Inl e, w')" "r = Returns (Inl e)"
  | (leaf) rh w1 where "storage_Exists cache desc w = (Inr False, w1)"
      "handleCopyNode src dst desc opts w1 = (rh, w')"
      "r = Returns (case rh of Some e \<Rightarrow> Inl e | None \<Rightarrow> Inr [])"
  | (edges_err) e w1 where "storage_Exists cache desc w = (Inr True, w1)"
      "content_DownEdges env src cache desc w1 = (Inl e, w')" "r = Returns (Inl e)"
  | (wait_stop) nodes w1 w2 rw where "storage_Exists cache desc w = (Inr True, w1)"
      "content_DownEdges env src cache desc w1 = (Inr nodes, w2)"
      "waitDownEdges env desc nodes w2 = (rw, w')" "rw \<noteq> Returns None"
      "r = (case rw of Returns (Some e) \<Rightarrow> Returns (Inl e) | Panics p \<Rightarrow> Panics p | Blocks \<Rightarrow> Blocks
             | Returns None \<Rightarrow> Blocks)"
  | (nonleaf) nodes w1 w2 w3 rh where "storage_Exists cache desc w = (Inr True, w1)"
      "content_DownEdges env src cache desc w1 = (Inr nodes, w2)"
      "waitDownEdges env desc nodes w2 = (Returns None, w3)"
      "handleCopyNode cache dst desc opts w3 = (rh, w')"
      "r = Returns (case rh of Some e \<Rightarrow> Inl e | None \<Rightarrow> Inr [])"
  using assms unfolding postHandler_body_def
  by (auto split: prod.splits sum.splits if_splits outcome.splits option.splits)

lemma postHandler_cases:
  assumes "postHandler env src dst cache opts desc w = (r, w')"
  obtains
    (fail) "postHandler_body env src dst cache opts desc w = (r, w')"
      "\<forall>nodes. r \<noteq> Returns (Inr nodes)"
  | (ok) nodes w1 c b w2 where
      "postHandler_body env src dst cache opts desc w = (Returns (Inr nodes), w1)"
      "TryCommit desc w1 = ((c, b), w2)" "close_chan c w2 = Inr w'" "r = Returns (Inr nodes)"
  | (panic) nodes w1 c b p where
      "postHandler_body env src dst cache opts desc w = (Returns (Inr nodes), w1)"
      "TryCommit desc w1 = ((c, b), w')" "close_chan c w' = Inl p" "r = Panics p"
  using assms unfolding postHandler_def
  by (auto split: prod.splits sum.splits outcome.splits)

lemma preHandler_trace:
  assumes run: "preHandler env src dst cache opts desc w = (r, w')"
  shows
   "(tracker w (Digest desc) \<noteq> None \<and> r = Returns (Inl ErrSkipDesc) \<and>
       w' = w\<lparr>trace := trace w @ [TryCommitEv desc False]\<rparr>) \<or>
    (tracker w (Digest desc) = None \<and>
      ((\<exists>e. r = Returns (Inl e) \<and> tracker w' = (tracker w)(Digest desc \<mapsto> Pending) \<and>
            trace w' = trace w @ [TryCommitEv desc True, ExistsEv (fst dst) desc (Inl e)]) \<or>
       (\<exists>hr. r = Returns (Inl (case hr of Some e \<Rightarrow> e | None \<Rightarrow> ErrSkipDesc)) \<and>
            (SkippedCopyHandler opts = None \<longrightarrow> hr = None) \<and>
            tracker w' = (tracker w)(Digest desc \<mapsto> Done) \<and>
            trace w' = trace w @ [TryCommitEv desc True, ExistsEv (fst dst) desc (Inr True),
                                   CloseEv (Digest desc)] @ skipped_part opts desc hr) \<or>
       (\<exists>r'. r = Returns r' \<and> tracker w' = (tracker w)(Digest desc \<mapsto> Pending) \<and>
            trace w' = trace w @ [TryCommitEv desc True, ExistsEv (fst dst) desc (Inr False),
                                   DownEdgesEv desc r'])))"
proof (cases "tracker w (Digest desc)")
  case (Some a)
  then show ?thesis using run
    by (simp add: preHandler_def TryCommit_def)
next
  case None
  let ?w1 = "w\<lparr>tracker := (tracker w)(Digest desc \<mapsto> Pending),
               trace := trace w @ [TryCommitEv desc True]\<rparr>"
  have tc: "TryCommit desc w = ((Digest desc, True), ?w1)"
    using None by (simp add: TryCommit_def)
  obtain ex w2 where ex: "storage_Exists dst desc ?w1 = (ex, w2)" by fastforce
  note e2 = storage_Exists_cases[OF ex]
  have w2: "tracker w2 = (tracker w)(Digest desc \<mapsto> Pending)"
    "trace w2 = trace w @ [TryCommitEv desc True, ExistsEv (fst dst) desc ex]"
    using e2 by simp_all
  show ?thesis
  proof (cases ex)
    case (Inl e)
    then have "r = Returns (Inl e)" "w' = w2"
      using run tc ex by (simp_all add: preHandler_def)
    then show ?thesis using None w2 Inl by simp
  next
    case (Inr present)
    show ?thesis
    proof (cases present)
      case False
      obtain r' w3 where de: "content_DownEdges env src cache desc w2 = (r', w3)" by fastforce
      then have "r = Returns r'" "w' = w3"
        using run tc ex Inr False by (simp_all add: preHandler_def)
      then show ?thesis using None w2 Inr False content_DownEdges_cases[OF de] by simp
    next
      case True
      let ?w3 = "w2\<lparr>tracker := (tracker w2)(Digest desc \<mapsto> Done),
                    trace := trace w2 @ [CloseEv (Digest desc)]\<rparr>"
      have cl: "close_chan (Digest desc) w2 = Inr ?w3"
        using w2(1) by (simp add: close_chan_def)
      show ?thesis
      proof (cases "SkippedCopyHandler opts")
        case N: None
        then have "r = Returns (Inl ErrSkipDesc)" "w' = ?w3"
          using run tc ex Inr True cl by (simp_all add: preHandler_def)
        then show ?thesis using None w2 Inr True N
          by (intro disjI2 conjI disjI1 exI[of _ None]) (simp_all add: skipped_part_def)
      next
        case (Some h)
        obtain hr w4 where hk: "call_hook SkippedCopy h desc ?w3 = (hr, w4)" by fastforce
        then have w4: "tracker w4 = tracker ?w3" "trace w4 = trace ?w3 @ [HookEv SkippedCopy desc hr]"
          by (auto simp: call_hook_def split: prod.splits)
        have "r = Returns (Inl (case hr of Some e \<Rightarrow> e | None \<Rightarrow> ErrSkipDesc))" "w' = w4"
          using run tc ex Inr True cl Some hk by (auto simp: preHandler_def split: option.splits)
        then show ?thesis using None w2 w4 Inr True Some
          by (intro disjI2 conjI disjI1 exI[of _ hr]) (simp_all add: skipped_part_def)
      qed
    qed
  qed
qed

lemma handleCopyNode_events:
  assumes "handleCopyNode src dst desc opts w = (r, w')"
  shows "\<exists>es. trace w' = trace w @ es \<and> tracker w' = tracker w \<and>
              transfer_events (fst src) (fst dst) desc opts r es"
  using handleCopyNode_trace[OF assms] unfolding transfer_events_def by auto

lemma split_unique:
  "pre @ x # post = A @ x' # B \<Longrightarrow> P x \<Longrightarrow> \<forall>y\<in>set A. \<not> P y \<Longrightarrow> \<forall>y\<in>set B. \<not> P y
     \<Longrightarrow> pre = A \<and> x = x' \<and> post = B"
proof (induction A arbitrary: pre)
  case Nil
  then show ?case by (cases pre) auto
next
  case (Cons a A)
  then show ?case by (cases pre) auto
qed

lemma pre_part_plain:
  "\<forall>e\<in>set (pre_part opts desc). \<not> is_push e \<and> \<not> is_wait_event e \<and> (\<forall>c. e \<noteq> CloseEv c) \<and>
       (\<forall>ro d r. e \<noteq> FetchEv ro d r) \<and> (\<forall>k d r. e = HookEv k d r \<longrightarrow> k = PreCopy \<and> d = desc \<and> r = None)"
  by (auto simp: pre_part_def is_push_def split: option.splits)

lemma post_part_plain:
  "\<forall>e\<in>set (post_part opts desc r0). \<not> is_push e \<and> \<not> is_wait_event e \<and> (\<forall>c. e \<noteq> CloseEv c) \<and>
       (\<forall>ro d r. e \<noteq> FetchEv ro d r) \<and> (\<forall>k d r. e = HookEv k d r \<longrightarrow> k = PostCopy \<and> d = desc \<and> r = r0)"
  by (auto simp: post_part_def is_push_def split: option.splits)

lemma transfer_events_hooks:
  assumes "transfer_events s d desc opts r es"
  shows "\<forall>e\<in>set es. \<not> is_wait_event e \<and> (\<forall>c. e \<noteq> CloseEv c) \<and>
            (\<forall>k d' r'. e = HookEv k d' r' \<longrightarrow> k \<noteq> SkippedCopy \<and> d' = desc) \<and>
            (\<forall>ro d' r'. e = FetchEv ro d' r' \<longrightarrow> ro = s \<and> d' = desc)"
  using assms pre_part_plain[of opts desc] post_part_plain[of opts desc r]
  unfolding transfer_events_def by fastforce

lemma transfer_events_success:
  assumes "transfer_events s d desc opts None es"
  shows "\<exists>e. push_ok e \<and>
     es = pre_part opts desc @ [FetchEv s desc None, PushEv d desc e, CloseReaderEv s desc]
            @ post_part opts desc None"
  using assms unfolding transfer_events_def by auto

lemma postHandler_body_trace:
  assumes "postHandler_body env src dst cache opts desc w = (r, w')"
  obtains
    (exists_err) e where
      "fst (Exists (snd cache) desc (ext w)) = Inl e" "r = Returns (Inl e)"
      "trace w' = trace w @ [ExistsEv (fst cache) desc (Inl e)]" "tracker w' = tracker w"
  | (leaf) rh tes where
      "fst (Exists (snd cache) desc (ext w)) = Inr False" "r = to_result rh"
      "trace w' = trace w @ ExistsEv (fst cache) desc (Inr False) # tes"
      "transfer_events (fst src) (fst dst) desc opts rh tes" "tracker w' = tracker w"
  | (edges_err) e where
      "fst (Exists (snd cache) desc (ext w)) = Inr True"
      "fst (DownEdges env (snd src) (snd cache) desc (snd (Exists (snd cache) desc (ext w)))) = Inl e"
      "r = Returns (Inl e)"
      "trace w' = trace w @ [ExistsEv (fst cache) desc (Inr True), DownEdgesEv desc (Inl e)]"
      "tracker w' = tracker w"
  | (wait_stop) nodes wes where
      "fst (Exists (snd cache) desc (ext w)) = Inr True"
      "fst (DownEdges env (snd src) (snd cache) desc (snd (Exists (snd cache) desc (ext w)))) = Inr nodes"
      "\<forall>ns. r \<noteq> Returns (Inr ns)"
      "trace w' = trace w @ ExistsEv (fst cache) desc (Inr True) # DownEdgesEv desc (Inr nodes) # wes"
      "\<forall>e\<in>set wes. is_wait_event e"
      "\<forall>k. (tracker w' k = Some Done) = (tracker w k = Some Done)"
      "\<forall>c. TryCommitEv c True \<in> set wes \<longrightarrow>
            r = Returns (Inl (down_edge_not_committed desc c)) \<and> c \<in> set nodes"
      "(\<forall>c\<in>set nodes. Digest c \<in> dom (tracker w)) \<longrightarrow> (\<forall>c. TryCommitEv c True \<notin> set wes)"
  | (nonleaf) nodes wes rh tes where
      "fst (Exists (snd cache) desc (ext w)) = Inr True"
      "fst (DownEdges env (snd src) (snd cache) desc (snd (Exists (snd cache) desc (ext w)))) = Inr nodes"
      "r = to_result rh"
      "trace w' = trace w @ ExistsEv (fst cache) desc (Inr True) # DownEdgesEv desc (Inr nodes) # wes @ tes"
      "\<forall>e\<in>set wes. is_wait_event e"
      "tracker w' = tracker w"
      "\<forall>c\<in>set nodes. SelectEv (Digest c) DoneReceived \<in> set wes"
      "\<forall>c. TryCommitEv c True \<notin> set wes"
      "transfer_events (fst cache) (fst dst) desc opts rh tes"
      "\<forall>c\<in>set nodes. Digest c \<in> dom (tracker w)"
proof (cases rule: postHandler_body_cases[OF assms])
  case (1 e)
  from storage_Exists_cases[OF 1(1)] 1(2) show ?thesis
    by (intro exists_err[of e]) auto
next
  case (2 rh w1)
  from handleCopyNode_events[OF 2(2)] obtain tes where
    "trace w' = trace w1 @ tes" "tracker w' = tracker w1"
    "transfer_events (fst src) (fst dst) desc opts rh tes" by blast
  with storage_Exists_cases[OF 2(1)] 2(3) show ?thesis
    by (intro leaf[of rh tes]) (auto simp: to_result_def)
next
  case (3 e w1)
  from storage_Exists_cases[OF 3(1)] content_DownEdges_cases[OF 3(2)] 3(3) show ?thesis
    by (intro edges_err[of e]) auto
next
  case (4 nodes w1 w2 rw)
  from waitDownEdges_trace[OF 4(3)] obtain wes where wes:
    "trace w' = trace w2 @ wes" "\<forall>e\<in>set wes. is_wait_event e"
    "\<forall>k. (tracker w' k = Some Done) = (tracker w2 k = Some Done)"
    "\<forall>c. TryCommitEv c True \<in> set wes \<longrightarrow>
          rw = Returns (Some (down_edge_not_committed desc c)) \<and> c \<in> set nodes"
    "(\<forall>c\<in>set nodes. Digest c \<in> dom (tracker w2)) \<longrightarrow> (\<forall>c. TryCommitEv c True \<notin> set wes)"
    by blast
  have w2: "tracker w2 = tracker w"
    "trace w2 = trace w @ [ExistsEv (fst cache) desc (Inr True), DownEdgesEv desc (Inr nodes)]"
    "fst (Exists (snd cache) desc (ext w)) = Inr True"
    "fst (DownEdges env (snd src) (snd cache) desc (snd (Exists (snd cache) desc (ext w)))) = Inr nodes"
    using storage_Exists_cases[OF 4(1)] content_DownEdges_cases[OF 4(2)] by auto
  have r: "\<forall>ns. r \<noteq> Returns (Inr ns)"
    using 4(4,5) by (auto split: outcome.splits option.splits)
  have tc: "\<forall>c. TryCommitEv c True \<in> set wes \<longrightarrow>
            r = Returns (Inl (down_edge_not_committed desc c)) \<and> c \<in> set nodes"
    using wes(4) 4(5) by auto
  show ?thesis
    using w2 wes r tc by (intro wait_stop[of nodes wes]) simp_all
next
  case (5 nodes w1 w2 w3 rh)
  from waitDownEdges_trace[OF 5(3)] obtain wes where wes:
    "trace w3 = trace w2 @ wes" "\<forall>e\<in>set wes. is_wait_event e"
    "(Returns None :: error option outcome) = Returns None \<longrightarrow> tracker w3 = tracker w2 \<and>
         (\<forall>c\<in>set nodes. Digest c \<in> dom (tracker w2)) \<and>
         (\<forall>c\<in>set nodes. SelectEv (Digest c) DoneReceived \<in> set wes)"
    "\<forall>c. TryCommitEv c True \<in> set wes \<longrightarrow>
          (Returns None :: error option outcome) = Returns (Some (down_edge_not_committed desc c)) \<and> c \<in> set nodes"
    by blast
  from handleCopyNode_events[OF 5(4)] obtain tes where tes:
    "trace w' = trace w3 @ tes" "tracker w' = tracker w3"
    "transfer_events (fst cache) (fst dst) desc opts rh tes" by blast
  have w2: "tracker w2 = tracker w"
    "trace w2 = trace w @ [ExistsEv (fst cache) desc (Inr True), DownEdgesEv desc (Inr nodes)]"
    "fst (Exists (snd cache) desc (ext w)) = Inr True"
    "fst (DownEdges env (snd src) (snd cache) desc (snd (Exists (snd cache) desc (ext w)))) = Inr nodes"
    using storage_Exists_cases[OF 5(1)] content_DownEdges_cases[OF 5(2)] by auto
  show ?thesis
    using w2 wes tes 5(5) by (intro nonleaf[of nodes rh wes tes]) (simp_all add: to_result_def)
qed

lemma to_result_simps [simp]:
  "to_result rh \<noteq> Panics p" "to_result rh \<noteq> Blocks"
  "(to_result rh = Returns (Inr ns)) = (rh = None \<and> ns = [])"
  "(to_result rh = Returns (Inl e)) = (rh = Some e)"
  by (auto simp: to_result_def split: option.splits)

lemma postHandler_deferred:
  assumes run: "postHandler env src dst cache opts desc w = (r, w')"
    and body: "postHandler_body env src dst cache opts desc w = (to_result rh, w1)"
  shows "\<exists>fin. trace w' = trace w1 @ fin \<and> deferred desc rh r fin \<and>
           (\<forall>b. TryCommitEv desc b \<in> set fin \<longrightarrow> b = (tracker w1 (Digest desc) = None)) \<and>
           (\<forall>k. k \<noteq> Digest desc \<longrightarrow> (tracker w' k = Some Done) = (tracker w1 k = Some Done)) \<and>
           (rh \<noteq> None \<longrightarrow> tracker w' = tracker w1) \<and>
           (r = Returns (Inr []) \<longrightarrow> tracker w' (Digest desc) = Some Done)"
proof (cases rule: postHandler_cases[OF run])
  case 1
  then show ?thesis using body by (cases rh) (auto simp: deferred_def to_result_def)
next
  case (2 nodes w1' c b w2)
  from TryCommit_cases[OF 2(2)] close_chan_Inr[OF 2(3)] 2(1,4) body show ?thesis
    by (cases rh) (auto simp: deferred_def to_result_def)
next
  case (3 nodes w1' c b p)
  from TryCommit_cases[OF 3(2)] 3(1,4) body show ?thesis
    by (cases rh) (auto simp: deferred_def to_result_def)
qed

lemma postHandler_not_deferred:
  assumes run: "postHandler env src dst cache opts desc w = (r, w')"
    and body: "postHandler_body env src dst cache opts desc w = (rb, w1)"
    and rb: "\<forall>ns. rb \<noteq> Returns (Inr ns)"
  shows "r = rb \<and> w' = w1"
  using run body rb unfolding postHandler_def
  by (auto split: outcome.splits sum.splits)


lemma postHandler_trace:
  assumes run: "postHandler env src dst cache opts desc w = (r, w')"
  obtains
    (exists_err) e where
      "fst (Exists (snd cache) desc (ext w)) = Inl e" "r = Returns (Inl e)"
      "events_of w w' = [ExistsEv (fst cache) desc (Inl e)]" "tracker w' = tracker w"
  | (leaf) rh tes fin where
      "fst (Exists (snd cache) desc (ext w)) = Inr False"
      "events_of w w' = ExistsEv (fst cache) desc (Inr False) # tes @ fin"
      "transfer_events (fst src) (fst dst) desc opts rh tes" "deferred desc rh r fin"
      "\<forall>k. k \<noteq> Digest desc \<longrightarrow> (tracker w' k = Some Done) = (tracker w k = Some Done)"
      "rh \<noteq> None \<longrightarrow> tracker w' = tracker w"
      "r = Returns (Inr []) \<longrightarrow> tracker w' (Digest desc) = Some Done"
  | (edges_err) e where
      "fst (Exists (snd cache) desc (ext w)) = Inr True"
      "fst (DownEdges env (snd src) (snd cache) desc (snd (Exists (snd cache) desc (ext w)))) = Inl e"
      "r = Returns (Inl e)"
      "events_of w w' = [ExistsEv (fst cache) desc (Inr True), DownEdgesEv desc (Inl e)]"
      "tracker w' = tracker w"
  | (wait_stop) nodes wes where
      "fst (Exists (snd cache) desc (ext w)) = Inr True"
      "fst (DownEdges env (snd src) (snd cache) desc (snd (Exists (snd cache) desc (ext w)))) = Inr nodes"
      "\<forall>ns. r \<noteq> Returns (Inr ns)"
      "events_of w w' = ExistsEv (fst cache) desc (Inr True) # DownEdgesEv desc (Inr nodes) # wes"
      "\<forall>e\<in>set wes. is_wait_event e"
      "\<forall>k. (tracker w' k = Some Done) = (tracker w k = Some Done)"
      "\<forall>c. TryCommitEv c True \<in> set wes \<longrightarrow>
            r = Returns (Inl (down_edge_not_committed desc c)) \<and> c \<in> set nodes"
      "(\<forall>c\<in>set nodes. Digest c \<in> dom (tracker w)) \<longrightarrow> (\<forall>c. TryCommitEv c True \<notin> set wes)"
  | (nonleaf) nodes wes rh tes fin where
      "fst (Exists (snd cache) desc (ext w)) = Inr True"
      "fst (DownEdges env (snd src) (snd cache) desc (snd (Exists (snd cache) desc (ext w)))) = Inr nodes"
      "events_of w w' =
         ExistsEv (fst cache) desc (Inr True) # DownEdgesEv desc (Inr nodes) # wes @ tes @ fin"
      "\<forall>e\<in>set wes. is_wait_event e"
      "\<forall>c\<in>set nodes. SelectEv (Digest c) DoneReceived \<in> set wes"
      "\<forall>c. TryCommitEv c True \<notin> set wes"
      "transfer_events (fst cache) (fst dst) desc opts rh tes" "deferred desc rh r fin"
      "\<forall>k. k \<noteq> Digest desc \<longrightarrow> (tracker w' k = Some Done) = (tracker w k = Some Done)"
      "rh \<noteq> None \<longrightarrow> tracker w' = tracker w"
      "r = Returns (Inr []) \<longrightarrow> tracker w' (Digest desc) = Some Done"
      "\<forall>c\<in>set nodes. Digest c \<in> dom (tracker w)"
      "\<forall>b. TryCommitEv desc b \<in> set fin \<longrightarrow> b = (tracker w (Digest desc) = None)"
proof -
  obtain rb w1 where body: "postHandler_body env src dst cache opts desc w = (rb, w1)"
    by fastforce
  show ?thesis
  proof (cases rule: postHandler_body_trace[OF body])
    case (1 e)
    with postHandler_not_deferred[OF run body] show ?thesis
      by (intro exists_err[of e]) (simp_all add: events_of_def)
  next
    case (2 rh tes)
    from postHandler_deferred[OF run body[unfolded 2(2)]] obtain fin where fin:
      "trace w' = trace w1 @ fin" "deferred desc rh r fin"
      "\<forall>k. k \<noteq> Digest desc \<longrightarrow> (tracker w' k = Some Done) = (tracker w1 k = Some Done)"
      "rh \<noteq> None \<longrightarrow> tracker w' = tracker w1"
      "r = Returns (Inr []) \<longrightarrow> tracker w' (Digest desc) = Some Done"
      "\<forall>b. TryCommitEv desc b \<in> set fin \<longrightarrow> b = (tracker w1 (Digest desc) = None)"
      by blast
    have ev: "events_of w w' = ExistsEv (fst cache) desc (Inr False) # tes @ fin"
      using fin(1) 2(3) by (simp add: events_of_def)
    have d: "\<forall>k. k \<noteq> Digest desc \<longrightarrow> (tracker w' k = Some Done) = (tracker w k = Some Done)"
      "rh \<noteq> None \<longrightarrow> tracker w' = tracker w"
      using fin(3,4) 2(5) by simp_all
    show ?thesis
      by (rule leaf[OF 2(1) ev 2(4) fin(2) d(1) d(2) fin(5)])
  next
    case (3 e)
    with postHandler_not_deferred[OF run body] show ?thesis
      by (intro edges_err[of e]) (simp_all add: events_of_def)
  next
    case (4 nodes wes)
    with postHandler_not_deferred[OF run body] show ?thesis
      by (intro wait_stop[of nodes wes]) (simp_all add: events_of_def)
  next
    case (5 nodes wes rh tes)
    from postHandler_deferred[OF run body[unfolded 5(3)]] obtain fin where fin:
      "trace w' = trace w1 @ fin" "deferred desc rh r fin"
      "\<forall>k. k \<noteq> Digest desc \<longrightarrow> (tracker w' k = Some Done) = (tracker w1 k = Some Done)"
      "rh \<noteq> None \<longrightarrow> tracker w' = tracker w1"
      "r = Returns (Inr []) \<longrightarrow> tracker w' (Digest desc) = Some Done"
      "\<forall>b. TryCommitEv desc b \<in> set fin \<longrightarrow> b = (tracker w1 (Digest desc) = None)"
      by blast
    have ev: "events_of w w' =
         ExistsEv (fst cache) desc (Inr True) # DownEdgesEv desc (Inr nodes) # wes @ tes @ fin"
      using fin(1) 5(4) by (simp add: events_of_def)
    have d: "\<forall>k. k \<noteq> Digest desc \<longrightarrow> (tracker w' k = Some Done) = (tracker w k = Some Done)"
      "rh \<noteq> None \<longrightarrow> tracker w' = tracker w"
      "\<forall>b. TryCommitEv desc b \<in> set fin \<longrightarrow> b = (tracker w (Digest desc) = None)"
      using fin(3,4,6) 5(6) by simp_all
    show ?thesis
      by (rule nonleaf[OF 5(1) 5(2) ev 5(5) 5(7) 5(8) 5(9) fin(2) d(1) d(2) fin(5) 5(10) d(3)])
  qed
qed


lemma pre_hook_failure_alone:
  assumes run: "handleCopyNode src dst desc opts w = (r, w')"
    and mem: "HookEv PreCopy desc (Some e) \<in> set (events_of w w')"
  shows "events_of w w' = [HookEv PreCopy desc (Some e)] \<and> r = Some e"
proof -
  from handleCopyNode_events[OF run] obtain es where es: "trace w' = trace w @ es"
    "transfer_events (fst src) (fst dst) desc opts r es" by blast
  have ev: "events_of w w' = es" using es(1) by (rule events_of_append)
  from es(2) mem[unfolded ev] show ?thesis unfolding ev transfer_events_def
    using pre_part_plain[of opts desc] post_part_plain[of opts desc r]
    by (elim disjE exE conjE) auto
qed


lemma transfer_after_pre_hook:
  assumes run: "handleCopyNode src dst desc opts w = (r, w')"
    and mem: "FetchEv ro d e \<in> set (events_of w w') \<or> PushEv ro d e \<in> set (events_of w w')"
  shows "\<exists>fe rest. events_of w w' = pre_part opts desc @ FetchEv (fst src) desc fe # rest"
proof -
  from handleCopyNode_events[OF run] obtain es where es: "trace w' = trace w @ es"
    "transfer_events (fst src) (fst dst) desc opts r es" by blast
  have ev: "events_of w w' = es" using es(1) by (rule events_of_append)
  from es(2) mem[unfolded ev] show ?thesis unfolding ev transfer_events_def
    by (elim disjE exE conjE) auto
qed

lemma post_hook_after_transfer:
  assumes run: "handleCopyNode src dst desc opts w = (r, w')"
    and mem: "HookEv PostCopy desc r2 \<in> set (events_of w w')"
  shows "r = r2 \<and> (\<exists>e. push_ok e \<and>
              events_of w w' = pre_part opts desc @
                [FetchEv (fst src) desc None, PushEv (fst dst) desc e,
                 CloseReaderEv (fst src) desc, HookEv PostCopy desc r2])"
proof -
  from handleCopyNode_events[OF run] obtain es where es: "trace w' = trace w @ es"
    "transfer_events (fst src) (fst dst) desc opts r es" by blast
  have ev: "events_of w w' = es" using es(1) by (rule events_of_append)
  from es(2) mem[unfolded ev] show ?thesis unfolding ev transfer_events_def
    using pre_part_plain[of opts desc]
    by (elim disjE exE conjE) (auto simp: post_part_def split: option.splits)
qed

lemma handleCopyNode_no_skipped_hook:
  assumes run: "handleCopyNode src dst desc opts w = (r, w')"
  shows "HookEv SkippedCopy d r3 \<notin> set (events_of w w')"
proof -
  from handleCopyNode_events[OF run] obtain es where es: "trace w' = trace w @ es"
    "transfer_events (fst src) (fst dst) desc opts r es" by blast
  have ev: "events_of w w' = es" using es(1) by (rule events_of_append)
  from transfer_events_hooks[OF es(2)] show ?thesis unfolding ev by blast
qed

lemma preHandler_hooks:
  assumes run: "preHandler env src dst cache opts desc w = (r, w')"
    and mem: "HookEv k d e \<in> set (events_of w w')"
  shows "k = SkippedCopy \<and> d = desc \<and> (\<exists>err. r = Returns (Inl err))"
  using preHandler_trace[OF run] mem
  by (elim disjE exE conjE) (auto simp: events_of_def skipped_part_def split: option.splits)



lemma deferred_plain:
  assumes "deferred desc rh r fin"
  shows "\<forall>e\<in>set fin. (\<exists>b. e = TryCommitEv desc b) \<or> e = CloseEv (Digest desc)"
  using assms unfolding deferred_def by auto

lemma wait_event_plain:
  assumes "\<forall>e\<in>set wes. is_wait_event e"
  shows "\<forall>e\<in>set wes. \<not> is_push e \<and> (\<forall>c. e \<noteq> CloseEv c) \<and> (\<forall>k d r. e \<noteq> HookEv k d r) \<and>
           (\<forall>ro d r. e \<noteq> FetchEv ro d r)"
proof
  fix e assume "e \<in> set wes"
  then have "is_wait_event e" using assms by blast
  then show "\<not> is_push e \<and> (\<forall>c. e \<noteq> CloseEv c) \<and> (\<forall>k d r. e \<noteq> HookEv k d r) \<and>
           (\<forall>ro d r. e \<noteq> FetchEv ro d r)"
    by (cases e) (simp_all add: is_push_def)
qed

lemma postHandler_hooks:
  assumes run: "postHandler env src dst cache opts desc w = (r, w')"
    and mem: "HookEv k d e \<in> set (events_of w w')"
  shows "k \<noteq> SkippedCopy \<and> d = desc"
proof (cases rule: postHandler_trace[OF run])
  case (1 e)
  then show ?thesis using mem by simp
next
  case (2 rh tes fin)
  from transfer_events_hooks[OF 2(3)] deferred_plain[OF 2(4)] mem show ?thesis
    unfolding 2(2) by auto
next
  case (3 e)
  then show ?thesis using mem by simp
next
  case (4 nodes wes)
  from wait_event_plain[OF 4(5)] mem show ?thesis unfolding 4(4) by auto
next
  case (5 nodes wes rh tes fin)
  from transfer_events_hooks[OF 5(7)] deferred_plain[OF 5(8)] wait_event_plain[OF 5(4)] mem
  show ?thesis unfolding 5(3) by auto
qed

lemma transfer_events_push_in:
  assumes te: "transfer_events s d desc opts r tes"
    and eq: "A @ tes @ B = pre @ PushEv ro d' e # post"
    and A: "\<forall>y\<in>set A. \<not> is_push y" and B: "\<forall>y\<in>set B. \<not> is_push y"
  shows "ro = d \<and> d' = desc \<and> pre = A @ pre_part opts desc @ [FetchEv s desc None]"
proof -
  have isp: "is_push (PushEv ro d' e)" by (simp add: is_push_def)
  have mem: "PushEv ro d' e \<in> set (A @ tes @ B)" unfolding eq by simp
  from te consider
      (nopush) "\<forall>y\<in>set tes. \<not> is_push y"
    | (push) e0 Q where
        "tes = (pre_part opts desc @ [FetchEv s desc None]) @ PushEv d desc e0 # Q"
        "\<forall>y\<in>set Q. \<not> is_push y"
    unfolding transfer_events_def
    using pre_part_plain[of opts desc] post_part_plain[of opts desc r]
    by (elim disjE exE conjE) (auto simp: is_push_def)
  then show ?thesis
  proof cases
    case nopush
    then show ?thesis using mem isp A B by auto
  next
    case push
    have nop: "\<forall>y\<in>set (A @ pre_part opts desc @ [FetchEv s desc None]). \<not> is_push y"
      using A pre_part_plain[of opts desc] by (auto simp: is_push_def)
    have noq: "\<forall>y\<in>set (Q @ B). \<not> is_push y" using push(2) B by auto
    have "pre @ PushEv ro d' e # post =
          (A @ pre_part opts desc @ [FetchEv s desc None]) @ PushEv d desc e0 # (Q @ B)"
      using eq push(1) by simp
    from split_unique[OF this, of is_push, OF isp nop noq] show ?thesis by simp
  qed
qed

lemma no_push_no_split:
  assumes "es = pre @ PushEv ro d e # post" "\<forall>y\<in>set es. \<not> is_push y"
  shows False
  using assms by (auto simp: is_push_def)

lemma postHandler_push_position:
  assumes run: "postHandler env src dst cache opts desc w = (r, w')"
    and eq: "events_of w w' = pre @ PushEv ro d e # post"
  shows "ro = fst dst \<and> d = desc \<and>
     ((fst (Exists (snd cache) desc (ext w)) = Inr False \<and>
         pre = ExistsEv (fst cache) desc (Inr False) # pre_part opts desc
                 @ [FetchEv (fst src) desc None]) \<or>
      (\<exists>nodes wes. fst (Exists (snd cache) desc (ext w)) = Inr True \<and>
         fst (DownEdges env (snd src) (snd cache) desc (snd (Exists (snd cache) desc (ext w))))
           = Inr nodes \<and>
         (\<forall>c\<in>set nodes. SelectEv (Digest c) DoneReceived \<in> set wes) \<and>
         pre = ExistsEv (fst cache) desc (Inr True) # DownEdgesEv desc (Inr nodes) # wes
                 @ pre_part opts desc @ [FetchEv (fst cache) desc None]))"
proof (cases rule: postHandler_trace[OF run])
  case (1 e')
  from no_push_no_split[OF eq] 1(3) show ?thesis by (simp add: is_push_def)
next
  case (2 rh tes fin)
  have fin: "\<forall>y\<in>set fin. \<not> is_push y"
    using deferred_plain[OF 2(4)] by (auto simp: is_push_def)
  have "[ExistsEv (fst cache) desc (Inr False)] @ tes @ fin = pre @ PushEv ro d e # post"
    using eq 2(2) by simp
  from transfer_events_push_in[OF 2(3) this _ fin] 2(1) show ?thesis
    by (simp add: is_push_def)
next
  case (3 e')
  from no_push_no_split[OF eq] 3(4) show ?thesis by (simp add: is_push_def)
next
  case (4 nodes wes)
  from no_push_no_split[OF eq] 4(4) wait_event_plain[OF 4(5)] show ?thesis
    by (simp add: is_push_def)
next
  case (5 nodes wes rh tes fin)
  have fin: "\<forall>y\<in>set fin. \<not> is_push y"
    using deferred_plain[OF 5(8)] by (auto simp: is_push_def)
  have A: "\<forall>y\<in>set (ExistsEv (fst cache) desc (Inr True) # DownEdgesEv desc (Inr nodes) # wes).
             \<not> is_push y"
    using wait_event_plain[OF 5(4)] by (simp add: is_push_def)
  have "(ExistsEv (fst cache) desc (Inr True) # DownEdgesEv desc (Inr nodes) # wes) @ tes @ fin
          = pre @ PushEv ro d e # post"
    using eq 5(3) by simp
  from transfer_events_push_in[OF 5(7) this A fin] 5(1,2,5) show ?thesis
    by auto
qed

lemma postHandler_fetch_side:
  assumes run: "postHandler env src dst cache opts desc w = (r, w')"
    and present: "fst (Exists (snd cache) desc (ext w)) = Inr present"
    and mem: "FetchEv ro d e \<in> set (events_of w w')"
  shows "ro = (if present then fst cache else fst src) \<and> d = desc"
proof (cases rule: postHandler_trace[OF run])
  case (1 e')
  then show ?thesis using mem by simp
next
  case (2 rh tes fin)
  from transfer_events_hooks[OF 2(3)] deferred_plain[OF 2(4)] mem 2(1) present show ?thesis
    unfolding 2(2) by auto
next
  case (3 e')
  then show ?thesis using mem by simp
next
  case (4 nodes wes)
  from wait_event_plain[OF 4(5)] mem show ?thesis unfolding 4(4) by auto
next
  case (5 nodes wes rh tes fin)
  from transfer_events_hooks[OF 5(7)] deferred_plain[OF 5(8)] wait_event_plain[OF 5(4)] mem
    5(1) present
  show ?thesis unfolding 5(3) by auto
qed

lemma postHandler_success:
  assumes run: "postHandler env src dst cache opts desc w = (r, w')"
    and present: "fst (Exists (snd cache) desc (ext w)) = Inr present"
    and ok: "r = Returns (Inr ns)"
    and ro: "ro = (if present then fst cache else fst src)"
  shows "tracker w' (Digest desc) = Some Done \<and>
    (\<exists>pre e post. push_ok e \<and> events_of w w' =
        pre @ FetchEv ro desc None # PushEv (fst dst) desc e # post @ [CloseEv (Digest desc)])"
proof (cases rule: postHandler_trace[OF run])
  case (1 e')
  then show ?thesis using ok by simp
next
  case (2 rh tes fin)
  have rh: "rh = None" and fin: "\<exists>b. fin = [TryCommitEv desc b, CloseEv (Digest desc)]"
    and ns: "ns = []"
    using 2(4) ok unfolding deferred_def by auto
  from transfer_events_success[OF 2(3)[unfolded rh]] obtain e where e: "push_ok e"
    "tes = pre_part opts desc @ [FetchEv (fst src) desc None, PushEv (fst dst) desc e,
            CloseReaderEv (fst src) desc] @ post_part opts desc None" by blast
  from fin obtain b where b: "fin = [TryCommitEv desc b, CloseEv (Digest desc)]" by blast
  have ro': "ro = fst src" using ro 2(1) present by simp
  have ev: "events_of w w' = (ExistsEv (fst cache) desc (Inr False) # pre_part opts desc)
          @ FetchEv ro desc None # PushEv (fst dst) desc e
          # (CloseReaderEv (fst src) desc # post_part opts desc None @ [TryCommitEv desc b])
            @ [CloseEv (Digest desc)]"
    unfolding 2(2) e(2) b ro' by simp
  have "tracker w' (Digest desc) = Some Done" using 2(7) ok ns by simp
  then show ?thesis using e(1) ev by blast
next
  case (3 e')
  then show ?thesis using ok by simp
next
  case (4 nodes wes)
  then show ?thesis using ok by simp
next
  case (5 nodes wes rh tes fin)
  have rh: "rh = None" and fin: "\<exists>b. fin = [TryCommitEv desc b, CloseEv (Digest desc)]"
    and ns: "ns = []"
    using 5(8) ok unfolding deferred_def by auto
  from transfer_events_success[OF 5(7)[unfolded rh]] obtain e where e: "push_ok e"
    "tes = pre_part opts desc @ [FetchEv (fst cache) desc None, PushEv (fst dst) desc e,
            CloseReaderEv (fst cache) desc] @ post_part opts desc None" by blast
  from fin obtain b where b: "fin = [TryCommitEv desc b, CloseEv (Digest desc)]" by blast
  have ro': "ro = fst cache" using ro 5(1) present by simp
  have ev: "events_of w w' =
          (ExistsEv (fst cache) desc (Inr True) # DownEdgesEv desc (Inr nodes) # wes
             @ pre_part opts desc)
          @ FetchEv ro desc None # PushEv (fst dst) desc e
          # (CloseReaderEv (fst cache) desc # post_part opts desc None @ [TryCommitEv desc b])
            @ [CloseEv (Digest desc)]"
    unfolding 5(3) e(2) b ro' by simp
  have "tracker w' (Digest desc) = Some Done" using 5(11) ok ns by simp
  then show ?thesis using e(1) ev by blast
qed

lemma postHandler_error_no_close:
  assumes run: "postHandler env src dst cache opts desc w = (Returns (Inl e), w')"
  shows "(\<forall>c. CloseEv c \<notin> set (events_of w w')) \<and>
         (\<forall>k. (tracker w' k = Some Done) = (tracker w k = Some Done))"
proof (cases rule: postHandler_trace[OF run])
  case (1 e')
  then show ?thesis by simp
next
  case (2 rh tes fin)
  have "rh = Some e" "fin = []" using 2(4) unfolding deferred_def by auto
  then show ?thesis using transfer_events_hooks[OF 2(3)] 2(6) unfolding 2(2) by auto
next
  case (3 e')
  then show ?thesis by simp
next
  case (4 nodes wes)
  then show ?thesis using wait_event_plain[OF 4(5)] by auto
next
  case (5 nodes wes rh tes fin)
  have "rh = Some e" "fin = []" using 5(8) unfolding deferred_def by auto
  then show ?thesis
    using transfer_events_hooks[OF 5(7)] wait_event_plain[OF 5(4)] 5(10) unfolding 5(3) by auto
qed

lemma preHandler_error_no_close:
  assumes run: "preHandler env src dst cache opts desc w = (Returns (Inl e), w')"
    and nex: "ExistsEv (fst dst) desc (Inr True) \<notin> set (events_of w w')"
  shows "(\<forall>c. CloseEv c \<notin> set (events_of w w')) \<and>
         (\<forall>k. (tracker w' k = Some Done) = (tracker w k = Some Done))"
  using preHandler_trace[OF run] nex
  by (elim disjE exE conjE) (auto simp: events_of_def)

section \<open>Invariants of a schedule\<close>

lemma winners_simps [simp]:
  "winners [] = []" "winners (e # es) = won e @ winners es"
  "winners (es @ es') = winners es @ winners es'"
  by (simp_all add: winners_def)

lemma pushes_simps [simp]:
  "pushes ro [] = []" "pushes ro (e # es) = push_of ro e @ pushes ro es"
  "pushes ro (es @ es') = pushes ro es @ pushes ro es'"
  by (simp_all add: pushes_def)

lemma acct_refl: "acct w w"
  by (simp add: acct_def)

lemma acct_trans:
  assumes "acct w w1" "acct w1 w2"
  shows "acct w w2"
proof -
  from assms(1) obtain es where es: "trace w1 = trace w @ es" "distinct (winners es)"
    "set (winners es) \<inter> dom (tracker w) = {}"
    "dom (tracker w1) = dom (tracker w) \<union> set (winners es)"
    unfolding acct_def by blast
  from assms(2) obtain es' where es': "trace w2 = trace w1 @ es'" "distinct (winners es')"
    "set (winners es') \<inter> dom (tracker w1) = {}"
    "dom (tracker w2) = dom (tracker w1) \<union> set (winners es')"
    unfolding acct_def by blast
  have 1: "trace w2 = trace w @ (es @ es')" using es(1) es'(1) by simp
  have 2: "distinct (winners (es @ es'))" using es(2,4) es'(2,3) by auto
  have 3: "set (winners (es @ es')) \<inter> dom (tracker w) = {}" using es(3,4) es'(3) by auto
  have 4: "dom (tracker w2) = dom (tracker w) \<union> set (winners (es @ es'))"
    using es(4) es'(4) by auto
  show ?thesis unfolding acct_def using 1 2 3 4 by blast
qed

lemma acct_plain:
  assumes "trace w' = trace w @ es" "winners es = []" "dom (tracker w') = dom (tracker w)"
  shows "acct w w'"
  unfolding acct_def using assms by (intro exI[of _ es]) simp

lemma acct_TryCommit:
  assumes "TryCommit d w = (cb, w')"
  shows "acct w w'"
proof -
  obtain c b where cb: "cb = (c, b)" by (cases cb)
  note t = TryCommit_cases[OF assms[unfolded cb]]
  show ?thesis
  proof (cases b)
    case True
    then show ?thesis using t unfolding acct_def
      by (intro exI[of _ "[TryCommitEv d True]"]) (auto simp: domIff)
  next
    case False
    then show ?thesis using t by (intro acct_plain[of _ _ "[TryCommitEv d False]"]) auto
  qed
qed

lemma acct_close:
  assumes "close_chan c w = Inr w'"
  shows "acct w w'"
  using close_chan_Inr[OF assms]
  by (intro acct_plain[of _ _ "[CloseEv c]"]) (auto simp: domIff)


lemma acct_Exists:
  assumes "storage_Exists s d w = (r, w')"
  shows "acct w w'"
  using storage_Exists_cases[OF assms]
  by (intro acct_plain[of _ _ "[ExistsEv (fst s) d r]"]) simp_all

lemma acct_DownEdges:
  assumes "content_DownEdges env src cache d w = (r, w')"
  shows "acct w w'"
  using content_DownEdges_cases[OF assms]
  by (intro acct_plain[of _ _ "[DownEdgesEv d r]"]) simp_all

lemma acct_select:
  assumes "select_done env c w = (r, w')"
  shows "acct w w'"
  using select_done_cases[OF assms]
  by (intro acct_plain[of _ _ "[SelectEv c r]"]) simp_all

lemma transfer_events_no_commit:
  assumes "transfer_events s d desc opts r tes"
  shows "winners tes = []"
  using assms unfolding transfer_events_def
  by (elim disjE exE conjE) (auto simp: pre_part_def post_part_def split: option.splits)

lemma transfer_events_pushes:
  assumes "transfer_events s d desc opts r tes"
  shows "pushes d tes = [] \<or> pushes d tes = [Digest desc]"
  using assms unfolding transfer_events_def
  by (elim disjE exE conjE) (auto simp: pre_part_def post_part_def split: option.splits)

lemma acct_handleCopyNode:
  assumes "handleCopyNode src dst desc opts w = (r, w')"
  shows "acct w w'"
proof -
  from handleCopyNode_events[OF assms] obtain es where
    "trace w' = trace w @ es" "tracker w' = tracker w"
    "transfer_events (fst src) (fst dst) desc opts r es" by blast
  then show ?thesis using transfer_events_no_commit by (intro acct_plain[of _ _ es]) simp_all
qed

lemma acct_waitDownEdges:
  "waitDownEdges env desc nodes w = (r, w') \<Longrightarrow> acct w w'"
proof (induction nodes arbitrary: w)
  case Nil
  then show ?case by (simp add: acct_refl)
next
  case (Cons node nodes)
  obtain c b w1 where tc: "TryCommit node w = ((c, b), w1)"
    by (metis prod.exhaust)
  note a1 = acct_TryCommit[OF tc]
  show ?case
  proof (cases b)
    case True
    then have "w' = w1" using Cons.prems tc by auto
    then show ?thesis using a1 by simp
  next
    case False
    obtain sr w2 where sd: "select_done env c w1 = (sr, w2)" by fastforce
    have a2: "acct w w2" using a1 acct_select[OF sd] by (rule acct_trans)
    show ?thesis
    proof (cases sr)
      case DoneReceived
      then have "waitDownEdges env desc nodes w2 = (r, w')"
        using Cons.prems tc sd False by auto
      from a2 Cons.IH[OF this] show ?thesis by (rule acct_trans)
    next
      case (CtxDone err)
      then have "w' = w2" using Cons.prems tc sd False by auto
      then show ?thesis using a2 by simp
    next
      case NeverReady
      then have "w' = w2" using Cons.prems tc sd False by auto
      then show ?thesis using a2 by simp
    qed
  qed
qed

lemma acct_postHandler_body:
  assumes "postHandler_body env src dst cache opts desc w = (r, w')"
  shows "acct w w'"
proof (cases rule: postHandler_body_cases[OF assms])
  case (1 e)
  then show ?thesis using acct_Exists by blast
next
  case (2 rh w1)
  from acct_Exists[OF 2(1)] acct_handleCopyNode[OF 2(2)] show ?thesis by (rule acct_trans)
next
  case (3 e w1)
  from acct_Exists[OF 3(1)] acct_DownEdges[OF 3(2)] show ?thesis by (rule acct_trans)
next
  case (4 nodes w1 w2 rw)
  from acct_Exists[OF 4(1)] acct_DownEdges[OF 4(2)] have "acct w w2" by (rule acct_trans)
  from this acct_waitDownEdges[OF 4(3)] show ?thesis by (rule acct_trans)
next
  case (5 nodes w1 w2 w3 rh)
  from acct_Exists[OF 5(1)] acct_DownEdges[OF 5(2)] have "acct w w2" by (rule acct_trans)
  from this acct_waitDownEdges[OF 5(3)] have "acct w w3" by (rule acct_trans)
  from this acct_handleCopyNode[OF 5(4)] show ?thesis by (rule acct_trans)
qed

lemma acct_postHandler:
  assumes "postHandler env src dst cache opts desc w = (r, w')"
  shows "acct w w'"
proof (cases rule: postHandler_cases[OF assms])
  case 1
  then show ?thesis using acct_postHandler_body by blast
next
  case (2 nodes w1 c b w2)
  from acct_postHandler_body[OF 2(1)] acct_TryCommit[OF 2(2)] have "acct w w2"
    by (rule acct_trans)
  from this acct_close[OF 2(3)] show ?thesis by (rule acct_trans)
next
  case (3 nodes w1 c b p)
  from acct_postHandler_body[OF 3(1)] acct_TryCommit[OF 3(2)] show ?thesis
    by (rule acct_trans)
qed

lemma acct_preHandler:
  assumes "preHandler env src dst cache opts desc w = (r, w')"
  shows "acct w w'"
  using preHandler_trace[OF assms] unfolding acct_def
  by (elim disjE exE conjE) (auto simp: skipped_part_def domIff split: option.splits)

lemma acct_events:
  assumes "acct w w'"
  shows "trace w' = trace w @ events_of w w'"
  using assms unfolding acct_def events_of_def by auto

lemma acct_winners:
  assumes "acct w w'" "distinct (winners (trace w))" "set (winners (trace w)) \<subseteq> dom (tracker w)"
  shows "distinct (winners (trace w')) \<and> set (winners (trace w')) \<subseteq> dom (tracker w') \<and>
         dom (tracker w) \<subseteq> dom (tracker w')"
proof -
  from assms(1) obtain es where es: "trace w' = trace w @ es" "distinct (winners es)"
    "set (winners es) \<inter> dom (tracker w) = {}"
    "dom (tracker w') = dom (tracker w) \<union> set (winners es)"
    unfolding acct_def by blast
  show ?thesis using es assms(2,3) by auto
qed

lemma preHandler_pushes:
  assumes "preHandler env src dst cache opts desc w = (r, w')"
  shows "pushes ro (events_of w w') = [] \<and>
         (\<forall>nodes. r = Returns (Inr nodes) \<longrightarrow>
            Digest desc \<notin> dom (tracker w) \<and> Digest desc \<in> dom (tracker w'))"
  using preHandler_trace[OF assms]
  by (elim disjE exE conjE) (auto simp: events_of_def skipped_part_def domIff split: option.splits)

lemma wait_events_pushes:
  assumes "\<forall>e\<in>set wes. is_wait_event e"
  shows "pushes ro wes = []"
  using assms
proof (induction wes)
  case Nil
  then show ?case by simp
next
  case (Cons e wes)
  then show ?case by (cases e) simp_all
qed

lemma deferred_pushes:
  assumes "deferred desc rh r fin"
  shows "pushes ro fin = []"
  using assms unfolding deferred_def by auto

lemma postHandler_pushes:
  assumes run: "postHandler env src dst cache opts desc w = (r, w')"
  shows "pushes (fst dst) (events_of w w') = [] \<or>
         pushes (fst dst) (events_of w w') = [Digest desc]"
proof (cases rule: postHandler_trace[OF run])
  case (1 e)
  then show ?thesis by simp
next
  case (2 rh tes fin)
  from transfer_events_pushes[OF 2(3)] deferred_pushes[OF 2(4)] show ?thesis
    unfolding 2(2) by auto
next
  case (3 e)
  then show ?thesis by simp
next
  case (4 nodes wes)
  from wait_events_pushes[OF 4(5)] show ?thesis unfolding 4(4) by simp
next
  case (5 nodes wes rh tes fin)
  from transfer_events_pushes[OF 5(7)] deferred_pushes[OF 5(8)] wait_events_pushes[OF 5(4)]
  show ?thesis unfolding 5(3) by auto
qed

lemma sched_inv_Enter:
  assumes inv: "sched_inv ro (w, pending)"
    and run: "preHandler env src dst cache opts d w = (r, w')"
  shows "sched_inv ro (w', if (\<exists>nodes. r = Returns (Inr nodes)) then d # pending else pending)"
proof -
  note a = acct_preHandler[OF run]
  note ev = acct_events[OF a]
  from inv have i: "distinct (winners (trace w))" "set (winners (trace w)) \<subseteq> dom (tracker w)"
    "distinct (pushes ro (trace w))" "set (pushes ro (trace w)) \<subseteq> dom (tracker w)"
    "distinct (map Digest pending)" "Digest ` set pending \<subseteq> dom (tracker w)"
    "Digest ` set pending \<inter> set (pushes ro (trace w)) = {}"
    unfolding sched_inv_def by auto
  from acct_winners[OF a i(1,2)] have w: "distinct (winners (trace w'))"
    "set (winners (trace w')) \<subseteq> dom (tracker w')" "dom (tracker w) \<subseteq> dom (tracker w')"
    by auto
  from preHandler_pushes[OF run, of ro] have p: "pushes ro (events_of w w') = []"
    "\<forall>nodes. r = Returns (Inr nodes) \<longrightarrow>
        Digest d \<notin> dom (tracker w) \<and> Digest d \<in> dom (tracker w')" by auto
  have pw: "pushes ro (trace w') = pushes ro (trace w)"
    using ev p(1) by (metis append_Nil2 pushes_simps(3))
  show ?thesis
  proof (cases "\<exists>nodes. r = Returns (Inr nodes)")
    case True
    then have d: "Digest d \<notin> dom (tracker w)" "Digest d \<in> dom (tracker w')" using p(2) by auto
    have n1: "Digest d \<notin> Digest ` set pending" using d(1) i(6) by blast
    have n2: "Digest d \<notin> set (pushes ro (trace w))" using d(1) i(4) by blast
    have 4: "set (pushes ro (trace w')) \<subseteq> dom (tracker w')"
      unfolding pw using i(4) w(3) by blast
    have 5: "distinct (map Digest (d # pending))" using n1 i(5) by simp
    have 6: "Digest ` set (d # pending) \<subseteq> dom (tracker w')"
      using d(2) i(6) w(3) by auto
    have 7: "Digest ` set (d # pending) \<inter> set (pushes ro (trace w')) = {}"
      unfolding pw using n2 i(7) by auto
    have 3: "distinct (pushes ro (trace w'))" unfolding pw using i(3) .
    show ?thesis using True w(1,2) 3 4 5 6 7 unfolding sched_inv_def by simp
  next
    case False
    have 4: "set (pushes ro (trace w')) \<subseteq> dom (tracker w')"
      unfolding pw using i(4) w(3) by blast
    have 6: "Digest ` set pending \<subseteq> dom (tracker w')"
      using i(6) w(3) by blast
    have 7: "Digest ` set pending \<inter> set (pushes ro (trace w')) = {}"
      unfolding pw using i(7) .
    have 3: "distinct (pushes ro (trace w'))" unfolding pw using i(3) .
    show ?thesis using False w(1,2) 3 4 i(5) 6 7 unfolding sched_inv_def by simp
  qed
qed

lemma sched_inv_Leave:
  assumes inv: "sched_inv (fst dst) (w, pending)"
    and mem: "d \<in> set pending"
    and run: "postHandler env src dst cache opts d w = (r, w')"
  shows "sched_inv (fst dst) (w', remove1 d pending)"
proof -
  note a = acct_postHandler[OF run]
  note ev = acct_events[OF a]
  from inv have i: "distinct (winners (trace w))" "set (winners (trace w)) \<subseteq> dom (tracker w)"
    "distinct (pushes (fst dst) (trace w))" "set (pushes (fst dst) (trace w)) \<subseteq> dom (tracker w)"
    "distinct (map Digest pending)" "Digest ` set pending \<subseteq> dom (tracker w)"
    "Digest ` set pending \<inter> set (pushes (fst dst) (trace w)) = {}"
    unfolding sched_inv_def by auto
  from acct_winners[OF a i(1,2)] have w: "distinct (winners (trace w'))"
    "set (winners (trace w')) \<subseteq> dom (tracker w')" "dom (tracker w) \<subseteq> dom (tracker w')"
    by auto
  have pw: "pushes (fst dst) (trace w') =
      pushes (fst dst) (trace w) @ pushes (fst dst) (events_of w w')"
    using ev by (metis pushes_simps(3))
  have dd: "Digest d \<in> dom (tracker w)" "Digest d \<notin> set (pushes (fst dst) (trace w))"
    using mem i(6,7) by auto
  have rem: "distinct (map Digest (remove1 d pending))"
    "Digest d \<notin> Digest ` set (remove1 d pending)"
    "set (remove1 d pending) \<subseteq> set pending"
    using i(5) mem
    by (auto simp: distinct_map inj_on_def)
  from postHandler_pushes[OF run] have
    ps: "set (pushes (fst dst) (events_of w w')) \<subseteq> {Digest d}"
      "distinct (pushes (fst dst) (events_of w w'))" by auto
  have 3: "distinct (pushes (fst dst) (trace w'))"
    unfolding pw using i(3) ps dd(2) by auto
  have 4: "set (pushes (fst dst) (trace w')) \<subseteq> dom (tracker w')"
  proof -
    have "set (pushes (fst dst) (trace w)) \<subseteq> dom (tracker w')" using i(4) w(3) by blast
    moreover have "set (pushes (fst dst) (events_of w w')) \<subseteq> dom (tracker w')"
      using ps(1) dd(1) w(3) by blast
    ultimately show ?thesis unfolding pw by simp
  qed
  have 6: "Digest ` set (remove1 d pending) \<subseteq> dom (tracker w')"
    using rem(3) i(6) w(3) by blast
  have 7: "Digest ` set (remove1 d pending) \<inter> set (pushes (fst dst) (trace w')) = {}"
  proof -
    have "Digest ` set (remove1 d pending) \<inter> set (pushes (fst dst) (trace w)) = {}"
      using rem(3) i(7) by blast
    moreover have "Digest ` set (remove1 d pending) \<inter>
        set (pushes (fst dst) (events_of w w')) = {}"
    proof -
      have "\<And>x. x \<in> set (pushes (fst dst) (events_of w w')) \<Longrightarrow> x = Digest d"
        using ps(1) by auto
      then show ?thesis using rem(2) by (auto simp: disjoint_iff)
    qed
    ultimately show ?thesis unfolding pw by auto
  qed
  show ?thesis unfolding sched_inv_def using w(1,2) 3 4 rem(1) 6 7 by simp
qed

lemma sched_inv_schedule:
  "sched_inv (fst dst) s \<Longrightarrow> sched_inv (fst dst) (schedule env src dst cache opts steps s)"
proof (induction steps arbitrary: s)
  case Nil
  then show ?case by simp
next
  case (Cons st steps)
  obtain w pending where s: "s = (w, pending)" by (cases s)
  show ?case
  proof (cases st)
    case (Enter d)
    obtain r w' where run: "preHandler env src dst cache opts d w = (r, w')" by fastforce
    from sched_inv_Enter[OF Cons.prems[unfolded s] run]
    have "sched_inv (fst dst)
            (w', if (\<exists>nodes. r = Returns (Inr nodes)) then d # pending else pending)" .
    from Cons.IH[OF this] show ?thesis
      unfolding s Enter using run
      by (auto split: outcome.splits sum.splits)
  next
    case (Leave d)
    show ?thesis
    proof (cases "d \<in> set pending")
      case True
      obtain r w' where run: "postHandler env src dst cache opts d w = (r, w')" by fastforce
      from sched_inv_Leave[OF Cons.prems[unfolded s] True run]
      have "sched_inv (fst dst) (w', remove1 d pending)" .
      from Cons.IH[OF this] show ?thesis unfolding s Leave using run True by simp
    next
      case False
      from Cons.IH[OF Cons.prems] show ?thesis unfolding s Leave using False by simp
    qed
  qed
qed

lemma skip_marks_simps [simp]:
  "skip_marks ro [] = []" "skip_marks ro (e # es) = skip_mark ro e @ skip_marks ro es"
  "skip_marks ro (es @ es') = skip_marks ro es @ skip_marks ro es'"
  by (simp_all add: skip_marks_def)

lemma copy_marks_simps [simp]:
  "copy_marks [] = []" "copy_marks (e # es) = copy_mark e @ copy_marks es"
  "copy_marks (es @ es') = copy_marks es @ copy_marks es'"
  by (simp_all add: copy_marks_def)

lemma hook_calls_simps [simp]:
  "hook_calls k [] = []" "hook_calls k (e # es) = hook_call k e @ hook_calls k es"
  "hook_calls k (es @ es') = hook_calls k es @ hook_calls k es'"
  by (simp_all add: hook_calls_def)

lemma skipped_calls_are_skip_marks:
  "set (hook_calls SkippedCopy es) \<subseteq> set (skip_marks ro es)"
proof (induction es)
  case Nil
  then show ?case by simp
next
  case (Cons e es)
  have "set (hook_call SkippedCopy e) \<subseteq> set (skip_mark ro e)"
    by (cases "(ro, e)" rule: skip_mark.cases) auto
  then show ?case using Cons by auto
qed

lemma copy_hook_calls_are_copy_marks:
  "set (hook_calls PreCopy es) \<union> set (hook_calls PostCopy es) \<subseteq> set (copy_marks es)"
proof (induction es)
  case Nil
  then show ?case by simp
next
  case (Cons e es)
  have "set (hook_call PreCopy e) \<union> set (hook_call PostCopy e) \<subseteq> set (copy_mark e)"
    by (cases e rule: copy_mark.cases) auto
  then show ?case using Cons by auto
qed

lemma preHandler_marks:
  assumes run: "preHandler env src dst cache opts desc w = (r, w')"
  shows "set (skip_marks ro (events_of w w')) \<subseteq> {Digest desc} \<and>
         set (copy_marks (events_of w w')) \<subseteq> {Digest desc} \<and>
         (skip_marks ro (events_of w w') = [] \<or> copy_marks (events_of w w') = []) \<and>
         length (hook_calls SkippedCopy (events_of w w')) \<le> 1 \<and>
         (tracker w (Digest desc) \<noteq> None \<longrightarrow>
            skip_marks ro (events_of w w') = [] \<and> copy_marks (events_of w w') = []) \<and>
         (\<forall>nodes. r = Returns (Inr nodes) \<longrightarrow> skip_marks ro (events_of w w') = [])"
  using preHandler_trace[OF run]
  by (elim disjE exE conjE) (auto simp: events_of_def skipped_part_def split: option.splits)

lemma transfer_events_marks:
  assumes "transfer_events s d desc opts r tes"
  shows "skip_marks ro tes = [] \<and> set (copy_marks tes) \<subseteq> {Digest desc}"
  using assms unfolding transfer_events_def
  by (elim disjE exE conjE) (auto simp: pre_part_def post_part_def split: option.splits)

lemma wait_events_marks:
  assumes "\<forall>e\<in>set wes. is_wait_event e"
  shows "skip_marks ro wes = [] \<and> copy_marks wes = []"
  using assms
proof (induction wes)
  case Nil
  then show ?case by simp
next
  case (Cons e wes)
  then show ?case by (cases e) simp_all
qed

lemma deferred_marks:
  assumes "deferred desc rh r fin"
  shows "skip_marks ro fin = [] \<and> copy_marks fin = []"
  using assms unfolding deferred_def by auto

lemma postHandler_marks:
  assumes run: "postHandler env src dst cache opts desc w = (r, w')"
    and ro: "fst cache \<noteq> ro"
  shows "skip_marks ro (events_of w w') = [] \<and>
         set (copy_marks (events_of w w')) \<subseteq> {Digest desc}"
proof (cases rule: postHandler_trace[OF run])
  case (1 e)
  then show ?thesis by simp
next
  case (2 rh tes fin)
  from transfer_events_marks[OF 2(3), of ro] deferred_marks[OF 2(4), of ro] show ?thesis
    unfolding 2(2) by auto
next
  case (3 e)
  then show ?thesis using ro by simp
next
  case (4 nodes wes)
  from wait_events_marks[OF 4(5), of ro] show ?thesis unfolding 4(4) using ro by simp
next
  case (5 nodes wes rh tes fin)
  from transfer_events_marks[OF 5(7), of ro] deferred_marks[OF 5(8), of ro]
    wait_events_marks[OF 5(4), of ro]
  show ?thesis unfolding 5(3) using ro by auto
qed


lemma preHandler_commits:
  assumes run: "preHandler env src dst cache opts desc w = (r, w')"
  shows "Digest desc \<in> dom (tracker w')"
  using preHandler_trace[OF run]
  by (elim disjE exE conjE) (auto simp: domIff)

lemma length_le_1_distinct: "length xs \<le> 1 \<Longrightarrow> distinct xs"
  by (cases xs) auto

lemma sub_single_disj1: "A \<subseteq> {k} \<Longrightarrow> k \<notin> B \<Longrightarrow> A \<inter> B = {}"
  by blast

lemma sub_single_disj2: "A \<subseteq> {k} \<Longrightarrow> k \<notin> B \<Longrightarrow> B \<inter> A = {}"
  by blast

lemma un_disj:
  "A \<inter> B = {} \<Longrightarrow> A \<inter> B' = {} \<Longrightarrow> A' \<inter> B = {} \<Longrightarrow> A' \<inter> B' = {}
     \<Longrightarrow> (A \<union> A') \<inter> (B \<union> B') = {}"
  by blast

lemma un_disj_left: "A \<inter> B = {} \<Longrightarrow> A' \<inter> B = {} \<Longrightarrow> (A \<union> A') \<inter> B = {}"
  by blast

lemma un_disj_right: "A \<inter> B = {} \<Longrightarrow> A \<inter> B' = {} \<Longrightarrow> A \<inter> (B \<union> B') = {}"
  by blast

lemma marks_inv_Enter:
  assumes inv: "marks_inv ro (w, pending)"
    and run: "preHandler env src dst cache opts d w = (r, w')"
  shows "marks_inv ro (w', if (\<exists>nodes. r = Returns (Inr nodes)) then d # pending else pending)"
proof -
  let ?es = "events_of w w'"
  let ?k = "Digest d"
  note a = acct_preHandler[OF run]
  note ev = acct_events[OF a]
  have mono: "dom (tracker w) \<subseteq> dom (tracker w')"
    using a unfolding acct_def by auto
  from inv have i: "set (skip_marks ro (trace w)) \<subseteq> dom (tracker w)"
    "set (copy_marks (trace w)) \<subseteq> dom (tracker w)"
    "Digest ` set pending \<subseteq> dom (tracker w)"
    "set (skip_marks ro (trace w)) \<inter> set (copy_marks (trace w)) = {}"
    "set (skip_marks ro (trace w)) \<inter> Digest ` set pending = {}"
    "distinct (hook_calls SkippedCopy (trace w))"
    unfolding marks_inv_def by auto
  from preHandler_marks[OF run, of ro] have m:
    "set (skip_marks ro ?es) \<subseteq> {?k}" "set (copy_marks ?es) \<subseteq> {?k}"
    "skip_marks ro ?es = [] \<or> copy_marks ?es = []"
    "length (hook_calls SkippedCopy ?es) \<le> 1"
    "tracker w ?k \<noteq> None \<longrightarrow> skip_marks ro ?es = [] \<and> copy_marks ?es = []"
    "\<forall>nodes. r = Returns (Inr nodes) \<longrightarrow> skip_marks ro ?es = []"
    by auto
  note k' = preHandler_commits[OF run]
  have sk: "skip_marks ro (trace w') = skip_marks ro (trace w) @ skip_marks ro ?es"
    using ev by (metis skip_marks_simps(3))
  have cp: "copy_marks (trace w') = copy_marks (trace w) @ copy_marks ?es"
    using ev by (metis copy_marks_simps(3))
  have hk: "hook_calls SkippedCopy (trace w') =
      hook_calls SkippedCopy (trace w) @ hook_calls SkippedCopy ?es"
    using ev by (metis hook_calls_simps(3))
  have fresh: "skip_marks ro ?es \<noteq> [] \<or> copy_marks ?es \<noteq> [] \<Longrightarrow> ?k \<notin> dom (tracker w)"
    using m(5) by (auto simp: domIff)
  have 1: "set (skip_marks ro (trace w')) \<subseteq> dom (tracker w')"
    unfolding sk using i(1) mono m(1) k' by auto
  have 2: "set (copy_marks (trace w')) \<subseteq> dom (tracker w')"
    unfolding cp using i(2) mono m(2) k' by auto
  have 4: "set (skip_marks ro (trace w')) \<inter> set (copy_marks (trace w')) = {}"
  proof -
    have "set (skip_marks ro (trace w)) \<inter> set (copy_marks ?es) = {}"
    proof (cases "copy_marks ?es = []")
      case True
      then show ?thesis by simp
    next
      case False
      then have "?k \<notin> dom (tracker w)" using fresh by simp
      then have "?k \<notin> set (skip_marks ro (trace w))" using i(1) by blast
      then show ?thesis by (rule sub_single_disj2[OF m(2)])
    qed
    moreover have "set (skip_marks ro ?es) \<inter> set (copy_marks (trace w)) = {}"
    proof (cases "skip_marks ro ?es = []")
      case True
      then show ?thesis by simp
    next
      case False
      then have "?k \<notin> dom (tracker w)" using fresh by simp
      then have "?k \<notin> set (copy_marks (trace w))" using i(2) by blast
      then show ?thesis by (rule sub_single_disj1[OF m(1)])
    qed
    moreover have "set (skip_marks ro ?es) \<inter> set (copy_marks ?es) = {}"
      using m(3) by auto
    ultimately have "(set (skip_marks ro (trace w)) \<union> set (skip_marks ro ?es)) \<inter>
        (set (copy_marks (trace w)) \<union> set (copy_marks ?es)) = {}"
      using i(4) by (intro un_disj)
    then show ?thesis unfolding sk cp by simp
  qed
  have 5: "set (skip_marks ro (trace w')) \<inter> Digest ` set pending = {}"
  proof -
    have "set (skip_marks ro ?es) \<inter> Digest ` set pending = {}"
    proof (cases "skip_marks ro ?es = []")
      case True
      then show ?thesis by simp
    next
      case False
      then have "?k \<notin> dom (tracker w)" using fresh by simp
      then have "?k \<notin> Digest ` set pending" using i(3) by blast
      then show ?thesis by (rule sub_single_disj1[OF m(1)])
    qed
    with i(5) have "(set (skip_marks ro (trace w)) \<union> set (skip_marks ro ?es)) \<inter>
        Digest ` set pending = {}"
      by (intro un_disj_left)
    then show ?thesis unfolding sk by simp
  qed
  have 6: "distinct (hook_calls SkippedCopy (trace w'))"
  proof -
    have "set (hook_calls SkippedCopy (trace w)) \<inter> set (hook_calls SkippedCopy ?es) = {}"
    proof (cases "hook_calls SkippedCopy ?es = []")
      case True
      then show ?thesis by simp
    next
      case False
      then have ne: "skip_marks ro ?es \<noteq> []"
        using skipped_calls_are_skip_marks[of ?es ro] by auto
      then have "?k \<notin> dom (tracker w)" using fresh by simp
      then have "?k \<notin> set (hook_calls SkippedCopy (trace w))"
        using i(1) skipped_calls_are_skip_marks[of "trace w" ro] by blast
      moreover have "set (hook_calls SkippedCopy ?es) \<subseteq> {?k}"
        using m(1) skipped_calls_are_skip_marks[of ?es ro] by blast
      ultimately show ?thesis by (intro sub_single_disj2)
    qed
    then show ?thesis unfolding hk using i(6) length_le_1_distinct[OF m(4)] by simp
  qed
  show ?thesis
  proof (cases "\<exists>nodes. r = Returns (Inr nodes)")
    case True
    then have e: "skip_marks ro ?es = []" using m(6) by auto
    have 3: "Digest ` set (d # pending) \<subseteq> dom (tracker w')"
      using i(3) mono k' by auto
    have nk: "?k \<notin> set (skip_marks ro (trace w'))"
    proof -
      from preHandler_pushes[OF run, of ro] True have "?k \<notin> dom (tracker w)" by auto
      then have "?k \<notin> set (skip_marks ro (trace w))" using i(1) by blast
      then show ?thesis unfolding sk e by simp
    qed
    have five: "set (skip_marks ro (trace w')) \<inter> Digest ` set (d # pending) = {}"
      using 5 nk by simp
    show ?thesis using True 1 2 3 4 five 6 unfolding marks_inv_def by simp
  next
    case False
    have 3: "Digest ` set pending \<subseteq> dom (tracker w')" using i(3) mono by blast
    show ?thesis using False 1 2 3 4 5 6 unfolding marks_inv_def by simp
  qed
qed

lemma marks_inv_Leave:
  assumes inv: "marks_inv ro (w, pending)"
    and mem: "d \<in> set pending"
    and run: "postHandler env src dst cache opts d w = (r, w')"
    and ro: "fst cache \<noteq> ro"
  shows "marks_inv ro (w', remove1 d pending)"
proof -
  let ?es = "events_of w w'"
  let ?k = "Digest d"
  note a = acct_postHandler[OF run]
  note ev = acct_events[OF a]
  have mono: "dom (tracker w) \<subseteq> dom (tracker w')"
    using a unfolding acct_def by auto
  from inv have i: "set (skip_marks ro (trace w)) \<subseteq> dom (tracker w)"
    "set (copy_marks (trace w)) \<subseteq> dom (tracker w)"
    "Digest ` set pending \<subseteq> dom (tracker w)"
    "set (skip_marks ro (trace w)) \<inter> set (copy_marks (trace w)) = {}"
    "set (skip_marks ro (trace w)) \<inter> Digest ` set pending = {}"
    "distinct (hook_calls SkippedCopy (trace w))"
    unfolding marks_inv_def by auto
  from postHandler_marks[OF run ro] have m:
    "skip_marks ro ?es = []" "set (copy_marks ?es) \<subseteq> {?k}" by auto
  have sk: "skip_marks ro (trace w') = skip_marks ro (trace w)"
    using ev m(1) by (metis append_Nil2 skip_marks_simps(3))
  have cp: "copy_marks (trace w') = copy_marks (trace w) @ copy_marks ?es"
    using ev by (metis copy_marks_simps(3))
  have hke: "hook_calls SkippedCopy ?es = []"
    using skipped_calls_are_skip_marks[of ?es ro] m(1) by simp
  have hk: "hook_calls SkippedCopy (trace w') = hook_calls SkippedCopy (trace w)"
    using ev hke by (metis append_Nil2 hook_calls_simps(3))
  have kd: "?k \<in> dom (tracker w)" "?k \<notin> set (skip_marks ro (trace w))"
    using mem i(3,5) by auto
  have rem: "set (remove1 d pending) \<subseteq> set pending" by (rule set_remove1_subset)
  have 1: "set (skip_marks ro (trace w')) \<subseteq> dom (tracker w')"
    unfolding sk using i(1) mono by blast
  have 2: "set (copy_marks (trace w')) \<subseteq> dom (tracker w')"
  proof -
    have "set (copy_marks (trace w)) \<subseteq> dom (tracker w')" using i(2) mono by blast
    moreover have "set (copy_marks ?es) \<subseteq> dom (tracker w')" using m(2) kd(1) mono by blast
    ultimately show ?thesis unfolding cp by simp
  qed
  have 3: "Digest ` set (remove1 d pending) \<subseteq> dom (tracker w')"
    using rem i(3) mono by blast
  have 4: "set (skip_marks ro (trace w')) \<inter> set (copy_marks (trace w')) = {}"
  proof -
    have "set (skip_marks ro (trace w)) \<inter> set (copy_marks ?es) = {}"
      by (rule sub_single_disj2[OF m(2) kd(2)])
    with i(4) have "set (skip_marks ro (trace w)) \<inter>
        (set (copy_marks (trace w)) \<union> set (copy_marks ?es)) = {}"
      by (intro un_disj_right)
    then show ?thesis unfolding sk cp by simp
  qed
  have 5: "set (skip_marks ro (trace w')) \<inter> Digest ` set (remove1 d pending) = {}"
    unfolding sk using rem i(5) by blast
  have 6: "distinct (hook_calls SkippedCopy (trace w'))" unfolding hk using i(6) .
  show ?thesis using 1 2 3 4 5 6 unfolding marks_inv_def by simp
qed

lemma marks_inv_schedule:
  assumes ro: "fst cache \<noteq> ro"
  shows "marks_inv ro s \<Longrightarrow> marks_inv ro (schedule env src dst cache opts steps s)"
proof (induction steps arbitrary: s)
  case Nil
  then show ?case by simp
next
  case (Cons st steps)
  obtain w pending where s: "s = (w, pending)" by (cases s)
  show ?case
  proof (cases st)
    case (Enter d)
    obtain r w' where run: "preHandler env src dst cache opts d w = (r, w')" by fastforce
    from marks_inv_Enter[OF Cons.prems[unfolded s] run]
    have "marks_inv ro
            (w', if (\<exists>nodes. r = Returns (Inr nodes)) then d # pending else pending)" .
    from Cons.IH[OF this] show ?thesis
      unfolding s Enter using run
      by (auto split: outcome.splits sum.splits)
  next
    case (Leave d)
    show ?thesis
    proof (cases "d \<in> set pending")
      case True
      obtain r w' where run: "postHandler env src dst cache opts d w = (r, w')" by fastforce
      from marks_inv_Leave[OF Cons.prems[unfolded s] True run ro]
      have "marks_inv ro (w', remove1 d pending)" .
      from Cons.IH[OF this] show ?thesis unfolding s Leave using run True by simp
    next
      case False
      from Cons.IH[OF Cons.prems] show ?thesis unfolding s Leave using False by simp
    qed
  qed
qed

lemma schedule_marks:
  assumes fresh: "tracker w = Map.empty" "trace w = []"
  shows "set (skip_marks Destination
                (trace (fst (schedule env (Source, src) (Destination, dst) (CacheStore, cache)
                               opts steps (w, [])))))
           \<inter> set (copy_marks
                (trace (fst (schedule env (Source, src) (Destination, dst) (CacheStore, cache)
                               opts steps (w, []))))) = {} \<and>
         distinct (hook_calls SkippedCopy
                (trace (fst (schedule env (Source, src) (Destination, dst) (CacheStore, cache)
                               opts steps (w, [])))))"
proof -
  have "fst (CacheStore, cache) \<noteq> Destination" by simp
  moreover have "marks_inv Destination (w, [])" using fresh by (simp add: marks_inv_def)
  ultimately have "marks_inv Destination
      (schedule env (Source, src) (Destination, dst) (CacheStore, cache) opts steps (w, []))"
    by (rule marks_inv_schedule)
  then show ?thesis by (auto simp: marks_inv_def split: prod.splits)
qed

lemmas run_defs =
  postHandler_def postHandler_body_def preHandler_def handleCopyNode_def copyNode_def
  storage_Fetch_def storage_Push_def storage_Exists_def reader_Close_def call_hook_def
  TryCommit_def close_chan_def content_DownEdges_def select_done_def result_err_def
  env0_def store0_def reader0_def world0_def opts0_def hook0_def layer0_def
  manifest0_def world1_def events_of_def

lemma steps1_trace:
  "trace (fst (schedule env1 (Source, store0 True None) (Destination, store0 False None)
                 (CacheStore, cache1) (opts0 None None None) steps1 (world0, []))) =
     [TryCommitEv manifest0 True, ExistsEv Destination manifest0 (Inr False),
      DownEdgesEv manifest0 (Inr [layer0]),
      TryCommitEv layer0 True, ExistsEv Destination layer0 (Inr False),
      DownEdgesEv layer0 (Inr []),
      TryCommitEv layer0 False,
      ExistsEv CacheStore layer0 (Inr False), FetchEv Source layer0 None,
      PushEv Destination layer0 None, CloseReaderEv Source layer0,
      TryCommitEv layer0 False, CloseEv (Digest layer0),
      ExistsEv CacheStore manifest0 (Inr True), DownEdgesEv manifest0 (Inr [layer0]),
      TryCommitEv layer0 False, SelectEv (Digest layer0) DoneReceived,
      FetchEv CacheStore manifest0 None, PushEv Destination manifest0 None,
      CloseReaderEv CacheStore manifest0,
      TryCommitEv manifest0 False, CloseEv (Digest manifest0)]"
  by (simp add: steps1_def env1_def cache1_def run_defs)

lemma existing_node_run:
  assumes owner: "tracker w (Digest desc) = None"
    and present: "fst (Exists (snd dst) desc (ext w)) = Inr True"
    and run: "preHandler env src dst cache opts desc w = (r, w')"
  shows "tracker w' (Digest desc) = Some Done \<and>
    (\<exists>hr. events_of w w' =
             [TryCommitEv desc True, ExistsEv (fst dst) desc (Inr True), CloseEv (Digest desc)]
               @ (case SkippedCopyHandler opts of None \<Rightarrow> []
                  | Some h \<Rightarrow> [HookEv SkippedCopy desc hr]) \<and>
           r = Returns (Inl (case hr of Some e \<Rightarrow> e | None \<Rightarrow> ErrSkipDesc)))"
proof -
  have tc: "TryCommit desc w = ((Digest desc, True),
      w\<lparr>tracker := (tracker w)(Digest desc \<mapsto> Pending), trace := trace w @ [TryCommitEv desc True]\<rparr>)"
    using owner by (simp add: TryCommit_def)
  have "ExistsEv (fst dst) desc (Inr True) \<in> set (events_of w w')"
    using run tc present
    by (auto simp: preHandler_def storage_Exists_def close_chan_def call_hook_def events_of_def
          split: prod.splits option.splits sum.splits)
  with preHandler_trace[OF run] owner show ?thesis
    by (elim disjE exE conjE) (auto simp: events_of_def skipped_part_def)
qed

lemma schedule_hooks_exclusive:
  assumes fresh: "tracker w0 = Map.empty" "trace w0 = []"
  shows "set (hook_calls SkippedCopy
                (trace (fst (schedule env (Source, s) (Destination, d) (CacheStore, c)
                               opts steps (w0, [])))))
           \<inter> (set (hook_calls PreCopy
                (trace (fst (schedule env (Source, s) (Destination, d) (CacheStore, c)
                               opts steps (w0, [])))))
               \<union> set (hook_calls PostCopy
                (trace (fst (schedule env (Source, s) (Destination, d) (CacheStore, c)
                               opts steps (w0, [])))))) = {}"
  using schedule_marks[OF fresh, of env s d c opts steps]
    skipped_calls_are_skip_marks[of
      "trace (fst (schedule env (Source, s) (Destination, d) (CacheStore, c) opts steps (w0, [])))"
      Destination]
    copy_hook_calls_are_copy_marks[of
      "trace (fst (schedule env (Source, s) (Destination, d) (CacheStore, c) opts steps (w0, [])))"]
  by blast

section \<open>The transfer of one node\<close>

text \<open>
  C5. A push to the destination that fails with an error that is, or wraps,
  \<open>errdef.ErrAlreadyExists\<close> counts as success: \<open>copyNode\<close> returns nil. Every other
  push error, and every fetch error, is returned.
\<close>

theorem copyNode_already_exists_is_success:
  "(\<forall>err w1. storage_Fetch src desc w = (Inl err, w1) \<longrightarrow>
       copyNode src dst desc w = (Some err, w1)) \<and>
   (\<forall>rc w1 err w2. storage_Fetch src desc w = (Inr rc, w1) \<and>
       storage_Push dst desc rc w1 = (Some err, w2) \<longrightarrow>
       fst (copyNode src dst desc w) = (if errors_Is err ErrAlreadyExists then None else Some err)) \<and>
   (\<forall>rc w1 w2. storage_Fetch src desc w = (Inr rc, w1) \<and>
       storage_Push dst desc rc w1 = (None, w2) \<longrightarrow> fst (copyNode src dst desc w) = None)"
  by (simp add: copyNode_def)

theorem copyNode_already_exists_is_success_witness:
  "fst (copyNode (Source, store0 True None)
          (Destination, store0 False (Some (Wrap ''push'' ErrAlreadyExists))) layer0 world0) = None"
  using copyNode_already_exists_is_success
    [of "(Source, store0 True None)" layer0 world0
        "(Destination, store0 False (Some (Wrap ''push'' ErrAlreadyExists)))"]
  by (simp add: storage_Fetch_def storage_Push_def store0_def world0_def)

text \<open>
  C8. For one node the hooks run in the order pre-copy, transfer, post-copy. In a run of
  \<open>handleCopyNode\<close>: a pre-copy hook that fails is the only event, and its error is
  returned; a fetch or a push comes after the pre-copy hook, if there is one, returned
  nil; the post-copy hook is the last event, right after a fetch that succeeded and a
  push that succeeded or reported that the content exists, and its result is returned;
  the skipped-hook is not called. \<open>preHandler\<close> calls no hook but the skipped-hook, and
  when it calls it, it returns an error (the skip signal or the hook's), so that the node
  gets no Post-Visit; \<open>postHandler\<close>, the only caller of \<open>handleCopyNode\<close>, never calls
  the skipped-hook. And in the trace of every schedule that starts with an empty tracker,
  no digest has both a call of the skipped-hook and a call of the pre-copy or post-copy
  hook.
\<close>

theorem hook_order:
  "(\<forall>r w'. handleCopyNode src dst desc opts w = (r, w') \<longrightarrow>
      (\<forall>e. HookEv PreCopy desc (Some e) \<in> set (events_of w w') \<longrightarrow>
            events_of w w' = [HookEv PreCopy desc (Some e)] \<and> r = Some e) \<and>
      (\<forall>ro d e. FetchEv ro d e \<in> set (events_of w w') \<or> PushEv ro d e \<in> set (events_of w w') \<longrightarrow>
            (\<exists>fe rest. events_of w w' = pre_part opts desc @ FetchEv (fst src) desc fe # rest)) \<and>
      (\<forall>r2. HookEv PostCopy desc r2 \<in> set (events_of w w') \<longrightarrow>
            r = r2 \<and>
            (\<exists>e. push_ok e \<and>
              events_of w w' = pre_part opts desc @
                [FetchEv (fst src) desc None, PushEv (fst dst) desc e,
                 CloseReaderEv (fst src) desc, HookEv PostCopy desc r2])) \<and>
      (\<forall>d r3. HookEv SkippedCopy d r3 \<notin> set (events_of w w'))) \<and>
   (\<forall>r w'. preHandler env src dst cache opts desc w = (r, w') \<longrightarrow>
      (\<forall>k d e. HookEv k d e \<in> set (events_of w w') \<longrightarrow>
            k = SkippedCopy \<and> d = desc \<and> (\<exists>err. r = Returns (Inl err)))) \<and>
   (\<forall>r w'. postHandler env src dst cache opts desc w = (r, w') \<longrightarrow>
      (\<forall>k d e. HookEv k d e \<in> set (events_of w w') \<longrightarrow> k \<noteq> SkippedCopy \<and> d = desc)) \<and>
   (tracker w0 = Map.empty \<and> trace w0 = [] \<longrightarrow>
      set (hook_calls SkippedCopy
             (trace (fst (schedule env (Source, s) (Destination, d) (CacheStore, c)
                            opts steps (w0, [])))))
        \<inter> (set (hook_calls PreCopy
             (trace (fst (schedule env (Source, s) (Destination, d) (CacheStore, c)
                            opts steps (w0, [])))))
            \<union> set (hook_calls PostCopy
             (trace (fst (schedule env (Source, s) (Destination, d) (CacheStore, c)
                            opts steps (w0, [])))))) = {})"
proof (intro conjI allI impI)
  fix r w' e
  assume "handleCopyNode src dst desc opts w = (r, w')"
    "HookEv PreCopy desc (Some e) \<in> set (events_of w w')"
  from pre_hook_failure_alone[OF this] show "events_of w w' = [HookEv PreCopy desc (Some e)]" "r = Some e"
    by simp_all
next
  fix r w' ro d e
  assume "handleCopyNode src dst desc opts w = (r, w')"
    "FetchEv ro d e \<in> set (events_of w w') \<or> PushEv ro d e \<in> set (events_of w w')"
  from transfer_after_pre_hook[OF this]
  show "\<exists>fe rest. events_of w w' = pre_part opts desc @ FetchEv (fst src) desc fe # rest" .
next
  fix r w' r2
  assume "handleCopyNode src dst desc opts w = (r, w')"
    "HookEv PostCopy desc r2 \<in> set (events_of w w')"
  from post_hook_after_transfer[OF this] show "r = r2" "\<exists>e. push_ok e \<and>
              events_of w w' = pre_part opts desc @
                [FetchEv (fst src) desc None, PushEv (fst dst) desc e,
                 CloseReaderEv (fst src) desc, HookEv PostCopy desc r2]"
    by simp_all
next
  fix r w' d r3
  assume "handleCopyNode src dst desc opts w = (r, w')"
  from handleCopyNode_no_skipped_hook[OF this] show "HookEv SkippedCopy d r3 \<notin> set (events_of w w')" .
next
  fix r w' k d e
  assume "preHandler env src dst cache opts desc w = (r, w')"
    "HookEv k d e \<in> set (events_of w w')"
  from preHandler_hooks[OF this] show "k = SkippedCopy" "d = desc" "\<exists>err. r = Returns (Inl err)"
    by simp_all
next
  fix r w' k d e
  assume "postHandler env src dst cache opts desc w = (r, w')"
    "HookEv k d e \<in> set (events_of w w')"
  from postHandler_hooks[OF this] show "k \<noteq> SkippedCopy" "d = desc"
    by simp_all
next
  assume "tracker w0 = Map.empty \<and> trace w0 = []"
  then show "set (hook_calls SkippedCopy
             (trace (fst (schedule env (Source, s) (Destination, d) (CacheStore, c)
                            opts steps (w0, [])))))
        \<inter> (set (hook_calls PreCopy
             (trace (fst (schedule env (Source, s) (Destination, d) (CacheStore, c)
                            opts steps (w0, [])))))
            \<union> set (hook_calls PostCopy
             (trace (fst (schedule env (Source, s) (Destination, d) (CacheStore, c)
                            opts steps (w0, [])))))) = {}"
    using schedule_hooks_exclusive[of w0 env s d c opts steps] by blast
qed

theorem hook_order_witness:
  "events_of world0 (snd (handleCopyNode (Source, store0 True None) (Destination, store0 False None)
       layer0 (opts0 (Some (hook0 (Some ErrNotFound))) None None) world0))
     = [HookEv PreCopy layer0 (Some ErrNotFound)]"
proof -
  let ?run = "handleCopyNode (Source, store0 True None) (Destination, store0 False None)
       layer0 (opts0 (Some (hook0 (Some ErrNotFound))) None None) world0"
  have run: "?run = (fst ?run, snd ?run)" by simp
  have mem: "HookEv PreCopy layer0 (Some ErrNotFound) \<in> set (events_of world0 (snd ?run))"
    by (simp add: run_defs)
  from hook_order[THEN conjunct1, rule_format, OF run, THEN conjunct1, rule_format, OF mem]
  show ?thesis by simp
qed

section \<open>Post-Visit\<close>

text \<open>
  C6. In a run of \<open>postHandler\<close> in which the cache reports the digest absent, every
  fetch is a fetch of the node from the source; in a run in which the cache reports it
  present, every fetch is a fetch of the node from the cache. In both, a push is a push of
  the node to the destination and comes right after the successful fetch; and when the
  handler returns without error, the fetch and the push have happened and the tracker
  entry of the node is done, the close of its completion signal being the last event.
\<close>

theorem postHandler_transfer:
  assumes run: "postHandler env (Source, src) (Destination, dst) (CacheStore, cache) opts desc w
                  = (r, w')"
    and present: "fst (Exists cache desc (ext w)) = Inr present"
  shows
    "(\<forall>ro d e. FetchEv ro d e \<in> set (events_of w w') \<longrightarrow>
        ro = (if present then CacheStore else Source) \<and> d = desc) \<and>
     (\<forall>pre ro d e post. events_of w w' = pre @ PushEv ro d e # post \<longrightarrow>
        ro = Destination \<and> d = desc \<and>
        (\<exists>pre'. pre = pre' @ [FetchEv (if present then CacheStore else Source) desc None])) \<and>
     (\<forall>ns. r = Returns (Inr ns) \<longrightarrow>
        tracker w' (Digest desc) = Some Done \<and>
        (\<exists>pre e post. push_ok e \<and> events_of w w' =
           pre @ FetchEv (if present then CacheStore else Source) desc None
               # PushEv Destination desc e # post @ [CloseEv (Digest desc)]))"
proof (intro conjI allI impI)
  fix ro d e assume "FetchEv ro d e \<in> set (events_of w w')"
  from postHandler_fetch_side[OF run _ this, of present] present
  show "ro = (if present then CacheStore else Source)" "d = desc" by simp_all
next
  fix pre ro d e post assume eq: "events_of w w' = pre @ PushEv ro d e # post"
  from postHandler_push_position[OF run eq] present
  show "ro = Destination" "d = desc"
    "\<exists>pre'. pre = pre' @ [FetchEv (if present then CacheStore else Source) desc None]"
    by auto
next
  fix ns assume ok: "r = Returns (Inr ns)"
  have ro: "(if present then CacheStore else Source) =
      (if present then fst (CacheStore, cache) else fst (Source, src))"
    by (cases present) simp_all
  have "fst (Exists (snd (CacheStore, cache)) desc (ext w)) = Inr present"
    using present by simp
  from postHandler_success[OF run this ok ro]
  show "tracker w' (Digest desc) = Some Done"
    "\<exists>pre e post. push_ok e \<and> events_of w w' =
           pre @ FetchEv (if present then CacheStore else Source) desc None
               # PushEv Destination desc e # post @ [CloseEv (Digest desc)]"
    by simp_all
qed

theorem postHandler_transfer_witness:
  "tracker (snd (postHandler (env0 []) (Source, store0 True None) (Destination, store0 False None)
       (CacheStore, store0 False None) (opts0 None None None) layer0 world0)) (Digest layer0)
     = Some Done"
proof -
  let ?run = "postHandler (env0 []) (Source, store0 True None) (Destination, store0 False None)
       (CacheStore, store0 False None) (opts0 None None None) layer0 world0"
  have r: "fst ?run = Returns (Inr [])" by (simp add: run_defs)
  have run: "?run = (Returns (Inr []), snd ?run)" using r by (simp add: prod_eq_iff)
  have present: "fst (Exists (store0 False None) layer0 (ext world0)) = Inr False"
    by (simp add: store0_def)
  from postHandler_transfer[OF run present] show ?thesis by blast
qed

text \<open>
  C2. For a node whose digest the cache reports present, with the down edges \<open>nodes\<close>
  that \<open>postHandler\<close> enumerates: a push in the trace of the run is a push of the node
  to the destination, and the events before it contain, for every down edge, a
  \<open>select\<close> that received the completion signal of this down edge. (Which case of a
  \<open>select\<close> fires is the environment's choice; the handler goes on to the next down
  edge, and in the end to the transfer, only after the case of the completion signal.)
\<close>

theorem push_after_children:
  assumes run: "postHandler env (Source, src) (Destination, dst) (CacheStore, cache) opts desc w
                  = (r, w')"
    and present: "fst (Exists cache desc (ext w)) = Inr True"
    and edges: "fst (DownEdges env src cache desc (snd (Exists cache desc (ext w)))) = Inr nodes"
  shows "\<forall>pre ro d e post. events_of w w' = pre @ PushEv ro d e # post \<longrightarrow>
           ro = Destination \<and> d = desc \<and>
           (\<forall>c\<in>set nodes. SelectEv (Digest c) DoneReceived \<in> set pre)"
proof (intro allI impI)
  fix pre ro d e post assume eq: "events_of w w' = pre @ PushEv ro d e # post"
  from postHandler_push_position[OF run eq] present edges
  show "ro = Destination \<and> d = desc \<and>
           (\<forall>c\<in>set nodes. SelectEv (Digest c) DoneReceived \<in> set pre)"
    by auto
qed

theorem push_after_children_witness:
  "SelectEv (Digest layer0) DoneReceived \<in> set
     [ExistsEv CacheStore manifest0 (Inr True), DownEdgesEv manifest0 (Inr [layer0]),
      TryCommitEv layer0 False, SelectEv (Digest layer0) DoneReceived,
      FetchEv CacheStore manifest0 None]"
proof -
  let ?run = "postHandler (env0 [layer0]) (Source, store0 True None)
       (Destination, store0 False None) (CacheStore, store0 True None) (opts0 None None None)
       manifest0 world1"
  have run: "?run = (fst ?run, snd ?run)" by simp
  have present: "fst (Exists (store0 True None) manifest0 (ext world1)) = Inr True"
    by (simp add: store0_def)
  have edges: "fst (DownEdges (env0 [layer0]) (store0 True None) (store0 True None) manifest0
                 (snd (Exists (store0 True None) manifest0 (ext world1)))) = Inr [layer0]"
    by (simp add: env0_def)
  have eq: "events_of world1 (snd ?run) =
      [ExistsEv CacheStore manifest0 (Inr True), DownEdgesEv manifest0 (Inr [layer0]),
       TryCommitEv layer0 False, SelectEv (Digest layer0) DoneReceived,
       FetchEv CacheStore manifest0 None]
      @ PushEv Destination manifest0 None
      # [CloseReaderEv CacheStore manifest0, TryCommitEv manifest0 False,
         CloseEv (Digest manifest0)]"
    by (simp add: run_defs)
  from push_after_children[OF run present edges, rule_format, OF eq] show ?thesis by simp
qed

text \<open>
  C7. In Post-Visit of a node the cache reports present: if the commit of an enumerated
  down edge wins the race, the handler returns the error
  \<open>"<digest>: <digest of the down edge>: down edge not committed"\<close>; and if every
  enumerated down edge has a tracker entry when the handler is entered, as it has once
  Pre-Visit has claimed it, no such commit wins.
\<close>

theorem uncommitted_down_edge:
  assumes run: "postHandler env src dst cache opts desc w = (r, w')"
    and present: "fst (Exists (snd cache) desc (ext w)) = Inr True"
    and edges: "fst (DownEdges env (snd src) (snd cache) desc
                       (snd (Exists (snd cache) desc (ext w)))) = Inr nodes"
  shows "(\<forall>c\<in>set nodes. TryCommitEv c True \<in> set (events_of w w') \<longrightarrow>
            r = Returns (Inl (down_edge_not_committed desc c))) \<and>
         ((\<forall>c\<in>set nodes. Digest c \<in> dom (tracker w)) \<longrightarrow>
            (\<forall>c\<in>set nodes. TryCommitEv c True \<notin> set (events_of w w')))"
proof (cases rule: postHandler_trace[OF run])
  case (1 e)
  then show ?thesis using present by simp
next
  case (2 rh tes fin)
  then show ?thesis using present by simp
next
  case (3 e)
  then show ?thesis using edges by simp
next
  case (4 ns wes)
  have "ns = nodes" using 4(2) edges by simp
  then show ?thesis using 4(7,8) unfolding 4(4) by auto
next
  case (5 ns wes rh tes fin)
  have ns: "ns = nodes" using 5(2) edges by simp
  have "\<forall>c\<in>set nodes. TryCommitEv c True \<notin> set (events_of w w')"
  proof
    fix c assume c: "c \<in> set nodes"
    have "TryCommitEv c True \<notin> set wes" using 5(6) by simp
    moreover have "TryCommitEv c True \<notin> set tes"
      using transfer_events_hooks[OF 5(7)] by fastforce
    moreover have "TryCommitEv c True \<notin> set fin"
    proof
      assume m: "TryCommitEv c True \<in> set fin"
      then have "c = desc" using deferred_plain[OF 5(8)] by auto
      then have "tracker w (Digest c) = None" using m 5(13) by auto
      then show False using 5(12) c ns by (auto simp: domIff)
    qed
    ultimately show "TryCommitEv c True \<notin> set (events_of w w')"
      unfolding 5(3) by simp
  qed
  then show ?thesis by simp
qed

theorem uncommitted_down_edge_witness:
  "fst (postHandler (env0 [layer0]) (Source, store0 True None) (Destination, store0 False None)
       (CacheStore, store0 True None) (opts0 None None None) manifest0 world0)
     = Returns (Inl (down_edge_not_committed manifest0 layer0)) \<and>
   TryCommitEv layer0 True \<notin> set (events_of world1
     (snd (postHandler (env0 [layer0]) (Source, store0 True None) (Destination, store0 False None)
       (CacheStore, store0 True None) (opts0 None None None) manifest0 world1)))"
proof -
  let ?run0 = "postHandler (env0 [layer0]) (Source, store0 True None)
       (Destination, store0 False None) (CacheStore, store0 True None) (opts0 None None None)
       manifest0 world0"
  let ?run1 = "postHandler (env0 [layer0]) (Source, store0 True None)
       (Destination, store0 False None) (CacheStore, store0 True None) (opts0 None None None)
       manifest0 world1"
  have run0: "?run0 = (fst ?run0, snd ?run0)" and run1: "?run1 = (fst ?run1, snd ?run1)"
    by simp_all
  have present: "fst (Exists (snd (CacheStore, store0 True None)) manifest0 (ext world0)) = Inr True"
    "fst (Exists (snd (CacheStore, store0 True None)) manifest0 (ext world1)) = Inr True"
    by (simp_all add: store0_def)
  have edges: "fst (DownEdges (env0 [layer0]) (snd (Source, store0 True None))
                 (snd (CacheStore, store0 True None)) manifest0
                 (snd (Exists (snd (CacheStore, store0 True None)) manifest0 (ext world0))))
               = Inr [layer0]"
    "fst (DownEdges (env0 [layer0]) (snd (Source, store0 True None))
                 (snd (CacheStore, store0 True None)) manifest0
                 (snd (Exists (snd (CacheStore, store0 True None)) manifest0 (ext world1))))
               = Inr [layer0]"
    by (simp_all add: env0_def)
  have mem: "TryCommitEv layer0 True \<in> set (events_of world0 (snd ?run0))"
    by (simp add: run_defs)
  have committed: "\<forall>c\<in>set [layer0]. Digest c \<in> dom (tracker world1)"
    by (simp add: world1_def)
  from uncommitted_down_edge[OF run0 present(1) edges(1), THEN conjunct1, rule_format, OF _ mem]
    uncommitted_down_edge[OF run1 present(2) edges(2), THEN conjunct2, THEN mp, OF committed]
  show ?thesis by simp
qed

section \<open>Completion signals\<close>

text \<open>
  C1, as the code has it. When \<open>postHandler\<close> returns an error, whichever it is (the
  cache's existence check, the down-edge discovery, an uncommitted down edge, the
  cancelled context, a hook, the fetch or the push), no completion signal has been closed
  and no tracker entry has become done. The same holds when \<open>preHandler\<close> returns an
  error and the destination has not reported the node present. (When the destination
  reports it present, \<open>preHandler\<close> closes the signal before it calls the
  skipped-hook.)
\<close>

theorem failed_node_not_closed:
  "(\<forall>e w'. postHandler env src dst cache opts desc w = (Returns (Inl e), w') \<longrightarrow>
       (\<forall>c. CloseEv c \<notin> set (events_of w w')) \<and>
       (\<forall>k. (tracker w' k = Some Done) = (tracker w k = Some Done))) \<and>
   (\<forall>e w'. preHandler env src dst cache opts desc w = (Returns (Inl e), w') \<and>
        ExistsEv (fst dst) desc (Inr True) \<notin> set (events_of w w') \<longrightarrow>
       (\<forall>c. CloseEv c \<notin> set (events_of w w')) \<and>
       (\<forall>k. (tracker w' k = Some Done) = (tracker w k = Some Done)))"
  using postHandler_error_no_close[of env src dst cache opts desc w] preHandler_error_no_close[of env src dst cache opts desc w]
  by blast

theorem failed_node_not_closed_witness:
  "CloseEv (Digest layer0) \<notin> set (events_of world0
     (snd (postHandler (env0 []) (Source, store0 True None) (Destination, store0 False None)
        (CacheStore, store0 False None) (opts0 None (Some (hook0 (Some ErrNotFound))) None)
        layer0 world0)))"
proof -
  let ?run = "postHandler (env0 []) (Source, store0 True None) (Destination, store0 False None)
        (CacheStore, store0 False None) (opts0 None (Some (hook0 (Some ErrNotFound))) None)
        layer0 world0"
  have r: "fst ?run = Returns (Inl ErrNotFound)" by (simp add: run_defs)
  have run: "?run = (Returns (Inl ErrNotFound), snd ?run)" using r by (simp add: prod_eq_iff)
  from failed_node_not_closed[THEN conjunct1, rule_format, OF run] show ?thesis by blast
qed

text \<open>
  C1, as the claim states it, fails in \<open>preHandler\<close>: the destination has the layer, the
  skipped-hook fails, the handler returns the hook's error, and the completion signal of
  the layer has been closed.
\<close>

theorem skipped_hook_failure_closes_signal:
  "fst (preHandler (env0 []) (Source, store0 True None) (Destination, store0 True None)
        (CacheStore, store0 False None)
        (opts0 None None (Some (hook0 (Some (ErrorString ''skipped hook failed'')))))
        layer0 world0) = Returns (Inl (ErrorString ''skipped hook failed'')) \<and>
   CloseEv (Digest layer0) \<in> set (events_of world0
     (snd (preHandler (env0 []) (Source, store0 True None) (Destination, store0 True None)
        (CacheStore, store0 False None)
        (opts0 None None (Some (hook0 (Some (ErrorString ''skipped hook failed'')))))
        layer0 world0))) \<and>
   tracker (snd (preHandler (env0 []) (Source, store0 True None) (Destination, store0 True None)
        (CacheStore, store0 False None)
        (opts0 None None (Some (hook0 (Some (ErrorString ''skipped hook failed'')))))
        layer0 world0)) (Digest layer0) = Some Done"
  by (simp add: run_defs)

section \<open>Pre-Visit\<close>

text \<open>
  C4. When the caller of \<open>preHandler\<close> wins the commit (the digest has no tracker entry)
  and the destination reports the node present, the run consists of the commit, the
  existence check, the close of the completion signal and, if a skipped-hook is set, one
  call of it: nothing is fetched, nothing is pushed, no down edge is enumerated. The
  entry of the node is done, and the handler returns no children but the skip signal, or
  the error of the skipped-hook. And in the trace of every schedule that starts with an
  empty tracker, a digest the destination reported present to its owner is never
  fetched, never pushed, never enumerated and never given to the pre-copy or post-copy
  hook, and the skipped-hook is called at most once for a digest.
\<close>

theorem existing_node_is_skipped:
  "(tracker w (Digest desc) = None \<and> fst (Exists (snd dst) desc (ext w)) = Inr True \<and>
    preHandler env src dst cache opts desc w = (r, w') \<longrightarrow>
      tracker w' (Digest desc) = Some Done \<and>
      (\<exists>hr. events_of w w' =
               [TryCommitEv desc True, ExistsEv (fst dst) desc (Inr True), CloseEv (Digest desc)]
                 @ (case SkippedCopyHandler opts of None \<Rightarrow> []
                    | Some h \<Rightarrow> [HookEv SkippedCopy desc hr]) \<and>
             r = Returns (Inl (case hr of Some e \<Rightarrow> e | None \<Rightarrow> ErrSkipDesc)))) \<and>
   (tracker w0 = Map.empty \<and> trace w0 = [] \<longrightarrow>
      set (skip_marks Destination
             (trace (fst (schedule env (Source, s) (Destination, d) (CacheStore, c)
                            opts steps (w0, [])))))
        \<inter> set (copy_marks
             (trace (fst (schedule env (Source, s) (Destination, d) (CacheStore, c)
                            opts steps (w0, []))))) = {} \<and>
      distinct (hook_calls SkippedCopy
             (trace (fst (schedule env (Source, s) (Destination, d) (CacheStore, c)
                            opts steps (w0, []))))))"
  using existing_node_run[of w desc dst env src cache opts r w']
    schedule_marks[of w0 env s d c opts steps]
  by blast

theorem existing_node_is_skipped_witness:
  "tracker (snd (preHandler (env0 []) (Source, store0 True None) (Destination, store0 True None)
        (CacheStore, store0 False None) (opts0 None None (Some (hook0 None))) layer0 world0))
     (Digest layer0) = Some Done \<and>
   distinct (hook_calls SkippedCopy
     (trace (fst (schedule env1 (Source, store0 True None) (Destination, store0 True None)
                    (CacheStore, cache1) (opts0 None None (Some (hook0 None)))
                    [Enter layer0, Enter layer0] (world0, [])))))"
proof -
  let ?run = "preHandler (env0 []) (Source, store0 True None) (Destination, store0 True None)
        (CacheStore, store0 False None) (opts0 None None (Some (hook0 None))) layer0 world0"
  have run: "?run = (fst ?run, snd ?run)" by simp
  have owner: "tracker world0 (Digest layer0) = None" by (simp add: world0_def)
  have present: "fst (Exists (snd (Destination, store0 True None)) layer0 (ext world0)) = Inr True"
    by (simp add: store0_def)
  have fresh: "tracker world0 = Map.empty \<and> trace world0 = []" by (simp add: world0_def)
  from existing_node_is_skipped[THEN conjunct1, THEN mp, OF conjI[OF owner conjI[OF present run]]]
    existing_node_is_skipped[THEN conjunct2, THEN mp, OF fresh]
  show ?thesis by blast
qed

text \<open>
  C3. A caller of \<open>preHandler\<close> that loses the commit race, the digest having a tracker
  entry already, returns the skip signal, and the commit is its only event: it calls
  neither the destination nor the down-edge discovery. And in every schedule that starts
  with an empty tracker, each digest wins the commit at most once and is pushed to the
  destination at most once.
\<close>

theorem commit_race:
  "(tracker w (Digest desc) \<noteq> None \<longrightarrow>
      preHandler env src dst cache opts desc w =
        (Returns (Inl ErrSkipDesc), w\<lparr>trace := trace w @ [TryCommitEv desc False]\<rparr>)) \<and>
   (tracker w = Map.empty \<and> trace w = [] \<longrightarrow>
      distinct (winners (trace (fst (schedule env src dst cache opts steps (w, []))))) \<and>
      distinct (pushes (fst dst) (trace (fst (schedule env src dst cache opts steps (w, []))))))"
proof (intro conjI impI)
  assume "tracker w (Digest desc) \<noteq> None"
  then show "preHandler env src dst cache opts desc w =
        (Returns (Inl ErrSkipDesc), w\<lparr>trace := trace w @ [TryCommitEv desc False]\<rparr>)"
    by (auto simp: preHandler_def TryCommit_def)
next
  assume fresh: "tracker w = Map.empty \<and> trace w = []"
  then have "sched_inv (fst dst) (w, [])" by (simp add: sched_inv_def)
  from sched_inv_schedule[OF this, of env src cache opts steps]
  show "distinct (winners (trace (fst (schedule env src dst cache opts steps (w, [])))))"
    "distinct (pushes (fst dst) (trace (fst (schedule env src dst cache opts steps (w, [])))))"
    by (auto simp: sched_inv_def split: prod.splits)
qed

theorem commit_race_witness:
  "fst (preHandler env1 (Source, store0 True None) (Destination, store0 False None)
          (CacheStore, cache1) (opts0 None None None) layer0 world1)
     = Returns (Inl ErrSkipDesc) \<and>
   pushes Destination
     (trace (fst (schedule env1 (Source, store0 True None) (Destination, store0 False None)
                    (CacheStore, cache1) (opts0 None None None) steps1 (world0, []))))
     = [Digest layer0, Digest manifest0]"
proof -
  have committed: "tracker world1 (Digest layer0) \<noteq> None" by (simp add: world1_def)
  have fresh: "tracker world0 = Map.empty \<and> trace world0 = []" by (simp add: world0_def)
  from commit_race[THEN conjunct1, THEN mp, OF committed]
    commit_race[THEN conjunct2, THEN mp, OF fresh,
      of env1 "(Source, store0 True None)" "(Destination, store0 False None)"
         "(CacheStore, cache1)" "opts0 None None None" steps1]
  show ?thesis by (simp add: steps1_trace)
qed

section \<open>CopyGraph and Copy\<close>

text \<open>
  C9. \<open>CopyGraph\<close> hands \<open>graph.Dispatch\<close> a limiter of weight 3 when
  \<open>opts.Concurrency\<close> is zero or negative, and of weight \<open>opts.Concurrency\<close> when it is
  positive.
\<close>

theorem default_concurrency:
  "(let opts1 = (if Cache opts = None then opts\<lparr>Cache := Some (NewMemory env)\<rparr> else opts);
        cache = (case Cache opts1 of Some c \<Rightarrow> c | None \<Rightarrow> NewMemory env)
    in (sint (Concurrency opts) \<le> 0 \<longrightarrow>
          CopyGraph env src dst root opts w =
            Dispatch env
              (preHandler env (Source, src) (Destination, dst) (CacheStore, cache)
                 (opts1\<lparr>Concurrency := 3\<rparr>))
              (postHandler env (Source, src) (Destination, dst) (CacheStore, cache)
                 (opts1\<lparr>Concurrency := 3\<rparr>))
              (NewWeighted 3) root w) \<and>
       (0 < sint (Concurrency opts) \<longrightarrow>
          CopyGraph env src dst root opts w =
            Dispatch env
              (preHandler env (Source, src) (Destination, dst) (CacheStore, cache) opts1)
              (postHandler env (Source, src) (Destination, dst) (CacheStore, cache) opts1)
              (NewWeighted (Concurrency opts)) root w))"
  by (simp add: CopyGraph_def defaultConcurrency_def Let_def)

theorem default_concurrency_witness:
  "CopyGraph (env0 []) (store0 True None) (store0 False None) layer0
       ((opts0 None None None)\<lparr>Concurrency := - 1\<rparr>) world0 =
   CopyGraph (env0 []) (store0 True None) (store0 False None) layer0
       ((opts0 None None None)\<lparr>Concurrency := 3\<rparr>) world0"
proof -
  have le: "sint (Concurrency ((opts0 None None None)\<lparr>Concurrency := - 1\<rparr>)) \<le> 0"
    by simp
  have gt: "0 < sint (Concurrency ((opts0 None None None)\<lparr>Concurrency := 3\<rparr>))"
    by simp
  from default_concurrency[unfolded Let_def, THEN conjunct1, THEN mp, OF le]
    default_concurrency[unfolded Let_def, THEN conjunct2, THEN mp, OF gt]
  show ?thesis by (simp add: opts0_def)
qed

text \<open>
  C10, as the claim states it, fails when both targets are nil: the error is the one of
  the source.
\<close>

theorem nil_destination_counterexample:
  "fst (Copy (env0 []) None ''latest'' None ''stable'' copyopts0 world0)
     \<noteq> Returns (Inl (errors_New ''nil destination target''))"
  by (simp add: Copy_def errors_New_def)

text \<open>
  C10, as the code has it. With a nil source \<open>Copy\<close> returns \<open>"nil source target"\<close>; with
  a source and a nil destination it returns \<open>"nil destination target"\<close>; in both cases
  nothing has been called. An empty destination reference behaves as the source
  reference; and the last event of a \<open>Copy\<close> that succeeds is the tagging of the root at
  the destination with the destination reference, or with the source reference when
  the destination reference is empty.
\<close>

theorem Copy_nil_targets:
  "Copy env None srcRef dst dstRef opts w =
      (Returns (Inl (errors_New ''nil source target'')), w) \<and>
   Copy env (Some s) srcRef None dstRef opts w =
      (Returns (Inl (errors_New ''nil destination target'')), w) \<and>
   Copy env src srcRef dst [] opts w = Copy env src srcRef dst srcRef opts w \<and>
   (\<forall>root w'. Copy env src srcRef dst dstRef opts w = (Returns (Inr root), w') \<longrightarrow>
      (\<exists>d es. dst = Some d \<and> trace w' =
         es @ [TagEv Destination root (if dstRef = [] then srcRef else dstRef) None]))"
proof (intro conjI allI impI)
  show "Copy env None srcRef dst dstRef opts w =
      (Returns (Inl (errors_New ''nil source target'')), w)"
    by (simp add: Copy_def)
  show "Copy env (Some s) srcRef None dstRef opts w =
      (Returns (Inl (errors_New ''nil destination target'')), w)"
    by (simp add: Copy_def)
  show "Copy env src srcRef dst [] opts w = Copy env src srcRef dst srcRef opts w"
    by (simp add: Copy_def split: option.splits)
next
  fix root w'
  assume run: "Copy env src srcRef dst dstRef opts w = (Returns (Inr root), w')"
  have tag: "\<And>s d ref r0 w0. Copy_from_root env s d ref opts r0 w0 = (Returns (Inr root), w')
             \<Longrightarrow> \<exists>es. trace w' = es @ [TagEv Destination root ref None]"
    by (auto simp: Copy_from_root_def target_Tag_def
          split: prod.splits outcome.splits option.splits)
  from run show "\<exists>d es. dst = Some d \<and> trace w' =
         es @ [TagEv Destination root (if dstRef = [] then srcRef else dstRef) None]"
    by (auto simp: Copy_def Let_def dest: tag
          split: option.splits prod.splits sum.splits if_splits)
qed

theorem Copy_nil_targets_witness:
  "trace (snd (Copy (env0 []) (Some (target0 True)) ''latest'' (Some (target0 True)) []
                 copyopts0 world0))
     = [ResolveEv Source ''latest'' (Inr layer0), TryCommitEv layer0 True,
        ExistsEv Destination layer0 (Inr True), CloseEv (Digest layer0),
        TagEv Destination layer0 ''latest'' None]"
proof -
  let ?run = "Copy (env0 []) (Some (target0 True)) ''latest'' (Some (target0 True)) []
                 copyopts0 world0"
  have tr: "trace (snd ?run) = [ResolveEv Source ''latest'' (Inr layer0), TryCommitEv layer0 True,
        ExistsEv Destination layer0 (Inr True), CloseEv (Digest layer0),
        TagEv Destination layer0 ''latest'' None]" and r: "fst ?run = Returns (Inr layer0)"
    by (simp_all add: Copy_def Copy_from_root_def CopyGraph_def target_Resolve_def target_Tag_def
          target0_def copyopts0_def dispatch0_def defaultConcurrency_def Let_def run_defs)
  have run: "?run = (Returns (Inr layer0), snd ?run)" using r by (simp add: prod_eq_iff)
  from Copy_nil_targets[THEN conjunct2, THEN conjunct2, THEN conjunct2, rule_format, OF run] tr
  show ?thesis by simp
qed

end
